theory Spec2Isabelle
  imports Complex_Main
begin

unbundle bit_operations_syntax

section \<open>Conventions of the embedding\<close>

text \<open>
  The C++ sources under \<^verbatim>\<open>app/src/main/cpp\<close> are embedded shallowly. A finite \<^verbatim>\<open>float\<close>
  or \<^verbatim>\<open>double\<close> is the \<^typ>\<open>real\<close> number that it denotes.

  In the voice activity detector and in the resampler the result of a floating-point
  computation is compared, converted to an \<^verbatim>\<open>int\<close>, or kept from one call to the next.
  There every operation is followed by the rounding of its format, in the order in which
  the source writes the operations: \<open>float_round\<close> for \<^verbatim>\<open>float\<close>, \<open>double_round\<close> for
  \<^verbatim>\<open>double\<close> (IEEE 754 binary32 and binary64, round to nearest, ties to even, gradual
  underflow; no operation is fused with another). \<^verbatim>\<open>std::sqrt\<close> and \<^verbatim>\<open>std::pow\<close> return the
  rounding of the exact result. The conversion of an \<^verbatim>\<open>int\<close> to \<^verbatim>\<open>double\<close> is exact and is
  not written; the conversions that can round (an \<^verbatim>\<open>int\<close> or a \<^verbatim>\<open>size_t\<close> to \<^verbatim>\<open>float\<close>, a
  \<^verbatim>\<open>size_t\<close> to \<^verbatim>\<open>double\<close>) are. A result beyond the largest finite number of the format is
  an infinity in C++ and stays a finite real here.

  In the post-processing of the frame processor and in the short-time Fourier transform
  the arithmetic on samples is that of the reals, without rounding: the theorems about
  them are the statements "under real arithmetic" of the specification.

  The places where IEEE arithmetic leaves the reals (a division by zero, a NaN comparison,
  a conversion to \<^verbatim>\<open>int\<close> of a value that does not fit) are written out as branches. The
  \<^verbatim>\<open>int\<close> counters of the classes are modelled by \<^typ>\<open>int\<close>; their increments are assumed
  not to overflow (a signed overflow is undefined in C++ and needs more than \<open>2^31\<close>
  frames). A \<^verbatim>\<open>std::vector<float>\<close> is a \<^typ>\<open>real list\<close>; a member function is a function
  from the object's state to its result and the new state.
\<close>

datatype error =
  UndefinedBehaviour  \<comment> \<open>the C++ standard gives the operation no meaning\<close>
  | LengthError       \<comment> \<open>\<^verbatim>\<open>std::length_error\<close> thrown by a vector constructor\<close>

text \<open>\<^verbatim>\<open>static_cast<int>(x)\<close> of a floating-point value truncates towards zero, and is
  undefined when the truncated value is not an \<^verbatim>\<open>int\<close> (32 bits).\<close>

definition trunc :: "real \<Rightarrow> int" where
  "trunc x = (if 0 \<le> x then \<lfloor>x\<rfloor> else \<lceil>x\<rceil>)"

definition static_cast_int :: "real \<Rightarrow> error + int" where
  "static_cast_int x =
     (if - 2147483649 < x \<and> x < 2147483648 then Inr (trunc x) else Inl UndefinedBehaviour)"

subsection \<open>Rounding\<close>

text \<open>\<open>\<lfloor>log\<^sub>2 n\<rfloor>\<close> of a positive natural number.\<close>

fun floor_log2 :: "nat \<Rightarrow> nat" where
  "floor_log2 n = (if n < 2 then 0 else Suc (floor_log2 (n div 2)))"

declare floor_log2.simps [simp del]

text \<open>The exponent \<open>e\<close> of the binade of \<open>x \<noteq> 0\<close>: \<open>2^e \<le> \<bar>x\<bar> < 2^(e+1)\<close>.\<close>

definition binade :: "real \<Rightarrow> int" where
  "binade x =
     (if 1 \<le> \<bar>x\<bar> then int (floor_log2 (nat \<lfloor>\<bar>x\<bar>\<rfloor>))
      else - int (floor_log2 (nat (\<lceil>1 / \<bar>x\<bar>\<rceil> - 1))) - 1)"

text \<open>The nearest integer; of two nearest integers, the even one.\<close>

definition round_even :: "real \<Rightarrow> int" where
  "round_even x =
     (let n = \<lfloor>x\<rfloor>; d = x - of_int n
      in if d < 1 / 2 then n else if 1 / 2 < d then n + 1 else if even n then n else n + 1)"

text \<open>Rounding to a binary format with \<open>p\<close> significant bits whose least normal exponent
  is \<open>emin\<close>: \<open>x\<close> goes to the nearest multiple of \<open>2^q\<close>, where \<open>q\<close> is the exponent of the
  last place in the binade of \<open>x\<close>, or that of the subnormal numbers when \<open>\<bar>x\<bar> < 2^emin\<close>.
  \<^verbatim>\<open>float\<close> has 24 significant bits and \<open>emin = -126\<close>, \<^verbatim>\<open>double\<close> has 53 and
  \<open>emin = -1022\<close>.\<close>

definition round_binary :: "nat \<Rightarrow> int \<Rightarrow> real \<Rightarrow> real" where
  "round_binary p emin x =
     (let q = max (binade x) emin - int p + 1
      in of_int (round_even (x / 2 powi q)) * 2 powi q)"

definition float_round :: "real \<Rightarrow> real" where
  "float_round x = round_binary 24 (- 126) x"

definition double_round :: "real \<Rightarrow> real" where
  "double_round x = round_binary 53 (- 1022) x"

section \<open>vad.cpp: the voice activity detector\<close>

definition DEFAULT_FRAME_SIZE :: nat where
  "DEFAULT_FRAME_SIZE = 480"

record VoiceActivityDetector =
  thresholdDb :: real
  thresholdLinear :: real
  hangFrames :: int
  framesSinceActive :: int
  totalFrames :: int
  activeFrames :: int
  bypassedFrames :: int

text \<open>The constructor. All its arithmetic is in \<^verbatim>\<open>float\<close>:
  \<^verbatim>\<open>std::pow(10.0f, thresholdDb / 20.0f)\<close> rounds the quotient and then the power;
  in \<^verbatim>\<open>hangTimeMs * sampleRate / 1000.0f / DEFAULT_FRAME_SIZE\<close> the \<^verbatim>\<open>int\<close> sample rate is
  converted to \<^verbatim>\<open>float\<close>, and the product and the two quotients are rounded in turn
  (\<open>480\<close> is a \<^verbatim>\<open>float\<close>).\<close>

definition VoiceActivityDetector_init ::
  "real \<Rightarrow> real \<Rightarrow> int \<Rightarrow> error + VoiceActivityDetector" where
  "VoiceActivityDetector_init dB hangTimeMs sampleRate =
     (case static_cast_int
             (float_round
                (float_round (float_round (hangTimeMs * float_round (real_of_int sampleRate)) / 1000)
                   / real DEFAULT_FRAME_SIZE)) of
        Inl e \<Rightarrow> Inl e
      | Inr h \<Rightarrow>
          Inr \<lparr> thresholdDb = dB, thresholdLinear = float_round (10 powr float_round (dB / 20)),
                hangFrames = h, framesSinceActive = h + 1,
                totalFrames = 0, activeFrames = 0, bypassedFrames = 0 \<rparr>)"

text \<open>The loop \<^verbatim>\<open>for (float sample : audio) sumSquares += sample * sample\<close>, on a
  \<^verbatim>\<open>float\<close> accumulator: the square is rounded, then the sum.\<close>

definition sumSquares :: "real list \<Rightarrow> real" where
  "sumSquares audio = fold (\<lambda>sample s. float_round (s + float_round (sample * sample))) audio 0"

text \<open>\<^verbatim>\<open>std::sqrt(sumSquares / static_cast<float>(audio.size()))\<close>.\<close>

definition rms :: "real list \<Rightarrow> real" where
  "rms audio =
     float_round (sqrt (float_round (sumSquares audio / float_round (real (length audio)))))"

text \<open>\<^verbatim>\<open>bool isActive = rms > thresholdLinear_\<close>. On an empty frame the C++ computes
  \<open>0/0\<close>, a NaN, and every comparison with a NaN is false.\<close>

definition isActive :: "VoiceActivityDetector \<Rightarrow> real list \<Rightarrow> bool" where
  "isActive v audio \<longleftrightarrow> audio \<noteq> [] \<and> rms audio > thresholdLinear v"

definition isSpeech :: "VoiceActivityDetector \<Rightarrow> real list \<Rightarrow> bool \<times> VoiceActivityDetector" where
  "isSpeech v audio =
     (let v1 = v\<lparr>totalFrames := totalFrames v + 1\<rparr> in
      if isActive v1 audio then
        (True, v1\<lparr>framesSinceActive := 0, activeFrames := activeFrames v1 + 1\<rparr>)
      else
        let v2 = v1\<lparr>framesSinceActive := framesSinceActive v1 + 1\<rparr> in
        if framesSinceActive v2 < hangFrames v2 then
          (True, v2\<lparr>activeFrames := activeFrames v2 + 1\<rparr>)
        else
          (False, v2\<lparr>bypassedFrames := bypassedFrames v2 + 1\<rparr>))"

definition VoiceActivityDetector_reset :: "VoiceActivityDetector \<Rightarrow> VoiceActivityDetector" where
  "VoiceActivityDetector_reset v =
     v\<lparr>framesSinceActive := hangFrames v + 1, totalFrames := 0,
       activeFrames := 0, bypassedFrames := 0\<rparr>"

text \<open>A caller that hands the frames of a list to \<^const>\<open>isSpeech\<close> in order: the results
  of the calls, and the detector after the last one.\<close>

fun isSpeech_results :: "VoiceActivityDetector \<Rightarrow> real list list \<Rightarrow> bool list" where
  "isSpeech_results v [] = []"
| "isSpeech_results v (f # fs) = fst (isSpeech v f) # isSpeech_results (snd (isSpeech v f)) fs"

fun isSpeech_final :: "VoiceActivityDetector \<Rightarrow> real list list \<Rightarrow> VoiceActivityDetector" where
  "isSpeech_final v [] = v"
| "isSpeech_final v (f # fs) = isSpeech_final (snd (isSpeech v f)) fs"

text \<open>The detector that \<^verbatim>\<open>PoiseProcessor\<close> constructs: \<open>-40\<close> dB, 300 ms hang time,
  48 kHz. The threshold is the \<^verbatim>\<open>float\<close> nearest to \<open>0.01\<close>, which is
  \<open>10737418 / 2^30\<close>; \<open>300 * 48000 / 1000 / 480 = 30\<close> frames, without any rounding.\<close>

definition default_detector :: VoiceActivityDetector where
  "default_detector =
     \<lparr> thresholdDb = - 40, thresholdLinear = 5368709 / 536870912, hangFrames = 30,
       framesSinceActive = 31, totalFrames = 0, activeFrames = 0, bypassedFrames = 0 \<rparr>"

section \<open>poise_processor.cpp: the frame processor\<close>

definition ONNX_STATE_SIZE :: nat where
  "ONNX_STATE_SIZE = 45304"

definition DEFAULT_SAMPLE_RATE :: int where
  "DEFAULT_SAMPLE_RATE = 48000"

definition SOFT_LIMITER_THRESHOLD :: real where
  "SOFT_LIMITER_THRESHOLD = 98 / 100"

definition AUDIO_CLIP_MIN :: real where
  "AUDIO_CLIP_MIN = - 1"

definition AUDIO_CLIP_MAX :: real where
  "AUDIO_CLIP_MAX = 1"

text \<open>\<^verbatim>\<open>frameSize_\<close> is an \<^verbatim>\<open>int\<close> member that only the constructor assigns, to
  \<^const>\<open>DEFAULT_FRAME_SIZE\<close>; it is kept as a \<^typ>\<open>nat\<close>.\<close>

record PoiseProcessor =
  vadThresholdDb :: real
  attenLimDb :: real
  frameSize :: nat
  sampleRate :: int
  states :: "real list"
  frameCount :: int
  totalProcessingTimeMs :: real
  vad :: VoiceActivityDetector

text \<open>The inference callback receives the frame, the model state (by reference) and the
  attenuation limit; it returns the enhanced frame, and the state as it left it.\<close>

type_synonym OnnxInferenceCallback = "real list \<Rightarrow> real list \<Rightarrow> real \<Rightarrow> real list \<times> real list"

definition PoiseProcessor_init :: "real \<Rightarrow> real \<Rightarrow> error + PoiseProcessor" where
  "PoiseProcessor_init dB atten =
     (case VoiceActivityDetector_init dB 300 DEFAULT_SAMPLE_RATE of
        Inl e \<Rightarrow> Inl e
      | Inr v \<Rightarrow>
          Inr \<lparr> vadThresholdDb = dB, attenLimDb = atten, frameSize = DEFAULT_FRAME_SIZE,
                sampleRate = DEFAULT_SAMPLE_RATE, states = replicate ONNX_STATE_SIZE 0,
                frameCount = 0, totalProcessingTimeMs = 0, vad = v \<rparr>)"

text \<open>A vector of \<^verbatim>\<open>frameSize_\<close> zeros, over whose front the first
  \<open>min (audio.size(), frameSize_)\<close> samples are copied.\<close>

definition normalizeFrameSize :: "PoiseProcessor \<Rightarrow> real list \<Rightarrow> real list" where
  "normalizeFrameSize p audio =
     (let result = replicate (frameSize p) 0;
          copySize = min (length audio) (frameSize p)
      in take copySize audio @ drop copySize result)"

definition normalizeOutputShape :: "PoiseProcessor \<Rightarrow> real list \<Rightarrow> real list \<Rightarrow> real list" where
  "normalizeOutputShape p output fallback =
     (if output = [] then fallback
      else
        let result = replicate (frameSize p) 0;
            copySize = min (length output) (frameSize p)
        in take copySize output @ drop copySize result)"

text \<open>\<^verbatim>\<open>std::clamp(v, lo, hi)\<close>.\<close>

definition clamp :: "real \<Rightarrow> real \<Rightarrow> real \<Rightarrow> real" where
  "clamp v lo hi = (if v < lo then lo else if hi < v then hi else v)"

definition postprocessAudio :: "real list \<Rightarrow> real list" where
  "postprocessAudio audio =
     (if audio = [] then audio
      else
        let maxVal = fold (\<lambda>sample m. max m \<bar>sample\<bar>) audio 0;
            audio1 =
              (if maxVal > SOFT_LIMITER_THRESHOLD \<and> maxVal > 0
               then let scale = SOFT_LIMITER_THRESHOLD / maxVal
                    in map (\<lambda>sample. sample * scale) audio
               else audio);
            audio2 = map (\<lambda>sample. clamp sample AUDIO_CLIP_MIN AUDIO_CLIP_MAX) audio1;
            mean = fold (\<lambda>sample m. m + sample) audio2 0 / real (length audio2)
        in map (\<lambda>sample. sample - mean) audio2)"

text \<open>\<^verbatim>\<open>processFrame\<close>. The wall-clock time that the callback took is the argument
  \<open>elapsedMs\<close>.\<close>

definition processFrame ::
  "PoiseProcessor \<Rightarrow> real list \<Rightarrow> OnnxInferenceCallback \<Rightarrow> real \<Rightarrow> real list \<times> PoiseProcessor" where
  "processFrame p inputFrame inferenceCallback elapsedMs =
     (let frame = normalizeFrameSize p inputFrame;
          (speech, v) = isSpeech (vad p) frame;
          p1 = p\<lparr>vad := v\<rparr>
      in if \<not> speech then (frame, p1)
         else
           let (enhancedFrame, st) = inferenceCallback frame (states p1) (attenLimDb p1);
               p2 = p1\<lparr>states := st, frameCount := frameCount p1 + 1,
                      totalProcessingTimeMs := totalProcessingTimeMs p1 + elapsedMs\<rparr>;
               enhancedFrame1 = normalizeOutputShape p2 enhancedFrame frame
           in (postprocessAudio enhancedFrame1, p2))"

definition PoiseProcessor_reset :: "PoiseProcessor \<Rightarrow> PoiseProcessor" where
  "PoiseProcessor_reset p =
     p\<lparr>states := replicate (length (states p)) 0, frameCount := 0,
       totalProcessingTimeMs := 0, vad := VoiceActivityDetector_reset (vad p)\<rparr>"

definition updateStates :: "PoiseProcessor \<Rightarrow> real list \<Rightarrow> PoiseProcessor" where
  "updateStates p newStates =
     (if length newStates = length (states p) then p\<lparr>states := newStates\<rparr> else p)"

text \<open>The processor that \<^verbatim>\<open>nativeInit\<close> builds with the default arguments.\<close>

definition default_processor :: PoiseProcessor where
  "default_processor =
     \<lparr> vadThresholdDb = - 40, attenLimDb = - 60, frameSize = 480, sampleRate = 48000,
       states = replicate ONNX_STATE_SIZE 0, frameCount = 0, totalProcessingTimeMs = 0,
       vad = default_detector \<rparr>"

subsection \<open>Notions used in the proofs about the frame processor\<close>

text \<open>The words of the specification, to compare the loops with: the peak absolute
  amplitude and the mean of a frame.\<close>

definition peak_amplitude :: "real list \<Rightarrow> real" where
  "peak_amplitude audio = Max (abs ` set audio)"

definition mean_of :: "real list \<Rightarrow> real" where
  "mean_of audio = sum_list audio / real (length audio)"

text \<open>A callback whose output is one sample at \<open>+1\<close> followed by 479 samples at \<open>-1\<close>.\<close>

definition spike_callback :: OnnxInferenceCallback where
  "spike_callback frame st atten = (1 # replicate 479 (- 1), st)"

section \<open>resampler.cpp: the streaming resampler\<close>

text \<open>\<^verbatim>\<open>accumulator_.size() - 1\<close> is computed in \<^verbatim>\<open>size_t\<close>, whose width is that of the
  target the NDK builds for: 32 bits on armeabi-v7a and x86, 64 bits on arm64-v8a and
  x86_64. The build files are not part of the sources, so the target is a parameter.\<close>

datatype abi = ILP32 | LP64

fun SIZE_MAX :: "abi \<Rightarrow> int" where
  "SIZE_MAX ILP32 = 4294967295"
| "SIZE_MAX LP64 = 18446744073709551615"

record StreamingResampler =
  inputSampleRate :: int
  outputSampleRate :: int
  ratio :: real
  phase :: real
  accumulator :: "real list"

text \<open>The constructor: the quotient of the two rates, rounded to \<^verbatim>\<open>double\<close>. For
  \<open>inputSr = 0\<close> the C++ ratio is an infinity or a NaN, which the model does not
  represent; the theorems below assume positive rates.\<close>

definition StreamingResampler_init :: "int \<Rightarrow> int \<Rightarrow> StreamingResampler" where
  "StreamingResampler_init inputSr outputSr =
     \<lparr> inputSampleRate = inputSr, outputSampleRate = outputSr,
       ratio = double_round (real_of_int outputSr / real_of_int inputSr),
       phase = 0, accumulator = [] \<rparr>"

text \<open>\<^verbatim>\<open>accumulator_.size() - 1\<close>: on an empty vector the unsigned subtraction wraps.\<close>

definition size_minus_one :: "abi \<Rightarrow> real list \<Rightarrow> int" where
  "size_minus_one target xs = (if xs = [] then SIZE_MAX target else int (length xs) - 1)"

text \<open>\<^verbatim>\<open>std::fmod(x, y)\<close> for finite \<open>x\<close> and \<open>y \<noteq> 0\<close>.\<close>

definition fmod :: "real \<Rightarrow> real \<Rightarrow> real" where
  "fmod x y = x - real_of_int (trunc (x / y)) * y"

text \<open>\<^verbatim>\<open>accumulator_[i]\<close> with an \<^verbatim>\<open>int\<close> index: \<^verbatim>\<open>operator[]\<close> outside the vector is
  undefined.\<close>

definition subscript :: "real list \<Rightarrow> int \<Rightarrow> error + real" where
  "subscript xs i = (if 0 \<le> i \<and> i < int (length xs) then Inr (xs ! nat i) else Inl UndefinedBehaviour)"

text \<open>The body of the interpolation loop, for output index \<open>i\<close>. The source position is
  a \<^verbatim>\<open>double\<close>: the sum and the quotient are rounded. \<^verbatim>\<open>frac\<close> is the \<^verbatim>\<open>double\<close> difference
  converted to \<^verbatim>\<open>float\<close>, and the interpolation is in \<^verbatim>\<open>float\<close>. With \<open>ratio_ = 0\<close> the
  source position is an infinity or a NaN, and its conversion to \<^verbatim>\<open>int\<close> is undefined.
  \<^verbatim>\<open>static_cast<int>(accumulator_.size())\<close> is the length (vectors of \<open>2^31\<close> floats or
  more are not considered).\<close>

definition interpolate :: "StreamingResampler \<Rightarrow> int \<Rightarrow> error + real" where
  "interpolate st i =
     (if ratio st = 0 then Inl UndefinedBehaviour
      else
        let srcPos = double_round (double_round (real_of_int i + phase st) / ratio st) in
        case static_cast_int srcPos of
          Inl e \<Rightarrow> Inl e
        | Inr srcIndex \<Rightarrow>
            let frac = float_round (double_round (srcPos - real_of_int srcIndex)) in
            if srcIndex + 1 < int (length (accumulator st)) then
              (case subscript (accumulator st) srcIndex of
                 Inl e \<Rightarrow> Inl e
               | Inr a \<Rightarrow>
                   (case subscript (accumulator st) (srcIndex + 1) of
                      Inl e \<Rightarrow> Inl e
                    | Inr b \<Rightarrow>
                        Inr (float_round
                               (float_round (a * float_round (1 - frac)) + float_round (b * frac)))))
            else if srcIndex < int (length (accumulator st)) then subscript (accumulator st) srcIndex
            else Inr 0)"

text \<open>The loop \<^verbatim>\<open>for (int i = ...; i < outputSize; i++)\<close>, with \<open>k\<close> iterations left.\<close>

fun generate :: "StreamingResampler \<Rightarrow> int \<Rightarrow> nat \<Rightarrow> error + real list" where
  "generate st i 0 = Inr []"
| "generate st i (Suc k) =
     (case interpolate st i of
        Inl e \<Rightarrow> Inl e
      | Inr y \<Rightarrow>
          (case generate st (i + 1) k of
             Inl e \<Rightarrow> Inl e
           | Inr ys \<Rightarrow> Inr (y # ys)))"

text \<open>\<^verbatim>\<open>process\<close>. In \<^verbatim>\<open>(accumulator_.size() - 1) * ratio_\<close> the \<^verbatim>\<open>size_t\<close> difference is
  converted to \<^verbatim>\<open>double\<close> (rounded, when it has more than 53 bits) and the product is
  rounded; \<^verbatim>\<open>outputSize / ratio_\<close> is a rounded quotient; in
  \<^verbatim>\<open>phase_ + consumedInputSamples - samplesToRemove\<close> the sum is rounded, then the
  difference. \<^verbatim>\<open>std::vector<float> output(outputSize)\<close> with a negative size asks for
  more than \<^verbatim>\<open>max_size()\<close> elements and throws.\<close>

definition process ::
  "abi \<Rightarrow> StreamingResampler \<Rightarrow> real list \<Rightarrow> int \<Rightarrow> error + real list \<times> StreamingResampler" where
  "process target st input outputSize =
     (if inputSampleRate st = outputSampleRate st then Inr (input, st)
      else
        let st1 = st\<lparr>accumulator := accumulator st @ input\<rparr> in
        case static_cast_int
               (double_round
                  (double_round (real_of_int (size_minus_one target (accumulator st1)))
                     * ratio st1)) of
          Inl e \<Rightarrow> Inl e
        | Inr availableOutputSamples \<Rightarrow>
            if availableOutputSamples < outputSize then Inr ([], st1)
            else if outputSize < 0 then Inl LengthError
            else
              (case generate st1 0 (nat outputSize) of
                 Inl e \<Rightarrow> Inl e
               | Inr output \<Rightarrow>
                   if ratio st1 = 0 then Inl UndefinedBehaviour
                   else
                     let consumedInputSamples =
                           double_round (real_of_int outputSize / ratio st1) in
                     (case static_cast_int consumedInputSamples of
                        Inl e \<Rightarrow> Inl e
                      | Inr samplesToRemove \<Rightarrow>
                          let st2 = st1\<lparr>phase :=
                                  fmod (double_round
                                          (double_round (phase st1 + consumedInputSamples)
                                             - real_of_int samplesToRemove)) 1\<rparr>;
                              st3 =
                                (if samplesToRemove > 0 \<and>
                                    samplesToRemove \<le> int (length (accumulator st2))
                                 then st2\<lparr>accumulator :=
                                        drop (nat samplesToRemove) (accumulator st2)\<rparr>
                                 else st2)
                          in Inr (output, st3))))"

definition StreamingResampler_reset :: "StreamingResampler \<Rightarrow> StreamingResampler" where
  "StreamingResampler_reset st = st\<lparr>accumulator := [], phase := 0\<rparr>"

text \<open>What the constructor establishes when it is given positive rates: the ratio is
  the \<^verbatim>\<open>double\<close> quotient of the rates, and the phase lies in \<open>[0, 1)\<close>.\<close>

definition StreamingResampler_inv :: "StreamingResampler \<Rightarrow> bool" where
  "StreamingResampler_inv st \<longleftrightarrow>
     0 < inputSampleRate st \<and> inputSampleRate st < 2147483648 \<and>
     0 < outputSampleRate st \<and> outputSampleRate st < 2147483648 \<and>
     ratio st =
       double_round (real_of_int (outputSampleRate st) / real_of_int (inputSampleRate st)) \<and>
     0 \<le> phase st \<and> phase st < 1"

section \<open>stft.cpp: the short-time Fourier transform\<close>

definition FFT_SIZE :: nat where
  "FFT_SIZE = 512"

definition HOP_SIZE :: nat where
  "HOP_SIZE = 256"

definition NUM_BINS :: nat where
  "NUM_BINS = 257"

text \<open>The arrays of the class are lists of \<^const>\<open>FFT_SIZE\<close> elements. A pointer argument is
  the list of the elements behind it; \<^verbatim>\<open>computeSTFT\<close> reads \<^const>\<open>HOP_SIZE\<close> of them and
  \<^verbatim>\<open>reconstructAudio\<close> reads \<^const>\<open>NUM_BINS\<close> of each.\<close>

record STFTProcessor =
  window :: "real list"
  stftBuffer :: "real list"
  overlapBuffer :: "real list"
  fftBuffer :: "complex list"

definition initWindow :: "STFTProcessor \<Rightarrow> STFTProcessor" where
  "initWindow st =
     st\<lparr>window :=
          map (\<lambda>i. let hann = 0.5 * (1 - cos (2 * pi * real i / real FFT_SIZE)) in sqrt hann)
            [0..<FFT_SIZE]\<rparr>"

definition STFTProcessor_reset :: "STFTProcessor \<Rightarrow> STFTProcessor" where
  "STFTProcessor_reset st =
     st\<lparr>stftBuffer := replicate FFT_SIZE 0, overlapBuffer := replicate FFT_SIZE 0\<rparr>"

text \<open>The constructor: \<^verbatim>\<open>initWindow(); reset();\<close>. These two calls overwrite the three
  \<^verbatim>\<open>float\<close> arrays; the \<^verbatim>\<open>std::complex\<close> elements of the working buffer are zero by their
  default constructor.\<close>

definition STFTProcessor_init :: STFTProcessor where
  "STFTProcessor_init =
     STFTProcessor_reset
       (initWindow \<lparr> window = replicate FFT_SIZE 0, stftBuffer = replicate FFT_SIZE 0,
                     overlapBuffer = replicate FFT_SIZE 0, fftBuffer = replicate FFT_SIZE 0 \<rparr>)"

text \<open>\<^verbatim>\<open>while ((1 << bits) < n) bits++;\<close>\<close>

function count_bits :: "nat \<Rightarrow> nat \<Rightarrow> nat" where
  "count_bits n bits = (if 2 ^ bits < n then count_bits n (Suc bits) else bits)"
  by pat_completeness auto
termination
proof (relation "measure (\<lambda>(n, bits). n - 2 ^ bits)")
  show "wf (measure (\<lambda>(n, bits). n - 2 ^ bits))" by simp
next
  fix n bits :: nat
  assume "2 ^ bits < n"
  moreover have "(2::nat) ^ bits < 2 ^ Suc bits" by simp
  ultimately have "n - 2 ^ Suc bits < n - 2 ^ bits" by (rule diff_less_mono2 [rotated])
  then show "((n, Suc bits), (n, bits)) \<in> measure (\<lambda>(n, bits). n - 2 ^ bits)" by simp
qed

declare count_bits.simps [simp del]

text \<open>\<^verbatim>\<open>for (k = 0; k < bits; k++) j = (j << 1) | ((i >> k) & 1);\<close> on the non-negative
  \<^verbatim>\<open>int\<close>s \<open>i\<close> and \<open>j\<close>.\<close>

definition reverse_index :: "nat \<Rightarrow> nat \<Rightarrow> nat" where
  "reverse_index bits i = fold (\<lambda>k j. push_bit 1 j OR (drop_bit k i AND 1)) [0..<bits] 0"

definition bitReverse :: "complex list \<Rightarrow> nat \<Rightarrow> complex list" where
  "bitReverse data n =
     (let bits = count_bits n 0 in
      fold (\<lambda>i d. let j = reverse_index bits i in
                   if j > i then d[i := d ! j, j := d ! i] else d)
        [0..<n] data)"

text \<open>The innermost loop of \<^verbatim>\<open>fft\<close>: the butterflies of the block that starts at
  \<open>start\<close>, with the twiddle factor \<open>w\<close> carried along.\<close>

definition butterflies :: "nat \<Rightarrow> nat \<Rightarrow> complex \<Rightarrow> complex list \<Rightarrow> complex list" where
  "butterflies start half wn data =
     snd (fold (\<lambda>k (w, d).
                 let t = w * d ! (start + k + half);
                     u = d ! (start + k)
                 in (w * wn, d[start + k := u + t, start + k + half := u - t]))
            [0..<half] (1, data))"

text \<open>One pass \<^verbatim>\<open>for (start = 0; start < n; start += size)\<close>: the blocks start at the
  multiples of the block size \<open>sz\<close> (the \<^verbatim>\<open>size\<close> of the source) below \<open>n\<close>.\<close>

definition fft_stage :: "nat \<Rightarrow> nat \<Rightarrow> bool \<Rightarrow> complex list \<Rightarrow> complex list" where
  "fft_stage sz n is_inverse data =
     (let angle = (if is_inverse then 2 else - 2) * pi / real sz;
          wn = Complex (cos angle) (sin angle)
      in fold (\<lambda>b d. butterflies (b * sz) (sz div 2) wn d)
           [0..<(n + sz - 1) div sz] data)"

text \<open>\<^verbatim>\<open>for (size = 2; size <= n; size *= 2)\<close>. The loop is entered with \<open>sz = 2\<close>.\<close>

function fft_stages :: "nat \<Rightarrow> nat \<Rightarrow> bool \<Rightarrow> complex list \<Rightarrow> complex list" where
  "fft_stages sz n is_inverse data =
     (if 0 < sz \<and> sz \<le> n
      then fft_stages (2 * sz) n is_inverse (fft_stage sz n is_inverse data)
      else data)"
  by pat_completeness auto
termination
  by (relation "measure (\<lambda>(sz, n, is_inverse, data). Suc n - sz)") auto

declare fft_stages.simps [simp del]

definition fft :: "complex list \<Rightarrow> nat \<Rightarrow> bool \<Rightarrow> complex list" where
  "fft data n is_inverse =
     (let d1 = bitReverse data n;
          d2 = fft_stages 2 n is_inverse d1
      in if is_inverse then map (\<lambda>z. z / of_nat n) (take n d2) @ drop n d2 else d2)"

definition computeSTFT ::
  "STFTProcessor \<Rightarrow> real list \<Rightarrow> (real list \<times> real list) \<times> STFTProcessor" where
  "computeSTFT st audioChunk =
     (let buf = take (FFT_SIZE - HOP_SIZE) (drop HOP_SIZE (stftBuffer st))
                  @ take HOP_SIZE audioChunk;
          fb = map (\<lambda>i. Complex (buf ! i * window st ! i) 0) [0..<FFT_SIZE];
          fb1 = fft fb FFT_SIZE False;
          realOut = map (\<lambda>i. Re (fb1 ! i)) [0..<NUM_BINS];
          imagOut = map (\<lambda>i. Im (fb1 ! i)) [0..<NUM_BINS]
      in ((realOut, imagOut), st\<lparr>stftBuffer := buf, fftBuffer := fb1\<rparr>))"

definition reconstructAudio ::
  "STFTProcessor \<Rightarrow> real list \<Rightarrow> real list \<Rightarrow> real list \<times> STFTProcessor" where
  "reconstructAudio st realIn imagIn =
     (let fb = fold (\<lambda>i b. b[i := Complex (realIn ! i) (imagIn ! i)]) [0..<NUM_BINS]
                 (fftBuffer st);
          fb1 = fold (\<lambda>i b. b[FFT_SIZE - i := cnj (b ! i)]) [1..<NUM_BINS - 1] fb;
          fb2 = fft fb1 FFT_SIZE True;
          ov = map (\<lambda>i. overlapBuffer st ! i + Re (fb2 ! i) * window st ! i) [0..<FFT_SIZE];
          audioOut = take HOP_SIZE ov;
          ov1 = take (FFT_SIZE - HOP_SIZE) (drop HOP_SIZE ov) @ replicate HOP_SIZE 0
      in (audioOut, st\<lparr>fftBuffer := fb2, overlapBuffer := ov1\<rparr>))"

text \<open>A caller that sends every chunk through \<^const>\<open>computeSTFT\<close> and hands the bins,
  unchanged, to \<^const>\<open>reconstructAudio\<close>: the reconstructed chunks, in order.\<close>

fun round_trip :: "STFTProcessor \<Rightarrow> real list list \<Rightarrow> real list list" where
  "round_trip st [] = []"
| "round_trip st (c # cs) =
     (let (bins, st1) = computeSTFT st c;
          (out, st2) = reconstructAudio st1 (fst bins) (snd bins)
      in out # round_trip st2 cs)"

subsection \<open>Notions used in the proofs about the transform\<close>

text \<open>The reversal of the low \<open>c\<close> bits of \<open>i\<close>, by recursion on \<open>c\<close>.\<close>

fun rev_bits :: "nat \<Rightarrow> nat \<Rightarrow> nat" where
  "rev_bits 0 i = 0"
| "rev_bits (Suc c) i = (i mod 2) * 2 ^ c + rev_bits c (i div 2)"

text \<open>What one pass of butterflies with block size \<open>2 * half\<close> leaves at index \<open>p\<close>.\<close>

definition stage_value :: "nat \<Rightarrow> complex \<Rightarrow> complex list \<Rightarrow> nat \<Rightarrow> complex" where
  "stage_value half wn data p =
     (if p mod (2 * half) < half
      then data ! p + wn ^ (p mod (2 * half)) * data ! (p + half)
      else data ! (p - half) - wn ^ (p mod (2 * half) - half) * data ! p)"

text \<open>The twiddle factor \<^verbatim>\<open>wn\<close> of the pass with block size \<open>sz\<close>.\<close>

definition twiddle :: "bool \<Rightarrow> nat \<Rightarrow> complex" where
  "twiddle is_inverse sz = cis ((if is_inverse then 2 else - 2) * pi / real sz)"

text \<open>The content of the buffer after the pass with block size \<open>2 ^ s\<close>, for an input
  \<open>x\<close> of \<open>2 ^ m\<close> elements: every block holds the transform of a decimated subsequence.\<close>

definition partial_dft :: "bool \<Rightarrow> nat \<Rightarrow> nat \<Rightarrow> complex list \<Rightarrow> nat \<Rightarrow> complex" where
  "partial_dft is_inverse m s x p =
     (\<Sum>j<2 ^ s. x ! (rev_bits (m - s) (p div 2 ^ s) + j * 2 ^ (m - s))
                  * twiddle is_inverse (2 ^ s) ^ (j * (p mod 2 ^ s)))"

text \<open>The discrete Fourier transform of a list, with the sign of the exponent chosen by the
  flag as in \<^verbatim>\<open>fft\<close> (without the scaling of the inverse).\<close>

definition dft :: "bool \<Rightarrow> complex list \<Rightarrow> nat \<Rightarrow> complex" where
  "dft is_inverse x k = (\<Sum>j<length x. x ! j * twiddle is_inverse (length x) ^ (j * k))"

text \<open>The Hann window, the square of the window of the class.\<close>

definition hann :: "nat \<Rightarrow> real" where
  "hann i = 0.5 * (1 - cos (2 * pi * real i / real FFT_SIZE))"

text \<open>The states in which a stream can start: the window is the one the constructor
  computes, the buffers have \<^const>\<open>FFT_SIZE\<close> elements, and the second half of the overlap
  buffer is zero. The constructor, \<^const>\<open>STFTProcessor_reset\<close> and \<^const>\<open>reconstructAudio\<close>
  all leave such a state.\<close>

definition stft_ready :: "STFTProcessor \<Rightarrow> bool" where
  "stft_ready st \<longleftrightarrow>
     window st = window STFTProcessor_init \<and>
     length (stftBuffer st) = FFT_SIZE \<and>
     length (overlapBuffer st) = FFT_SIZE \<and>
     drop HOP_SIZE (overlapBuffer st) = replicate HOP_SIZE 0"

text \<open>The state between two chunks of a stream: \<open>prev\<close> is the chunk fed last, which sits
  in the second half of the input window and, weighted by the falling half of the Hann
  window, in the first half of the overlap buffer.\<close>

definition stft_carry :: "STFTProcessor \<Rightarrow> real list \<Rightarrow> bool" where
  "stft_carry st prev \<longleftrightarrow>
     stft_ready st \<and> length prev = HOP_SIZE \<and>
     drop HOP_SIZE (stftBuffer st) = prev \<and>
     take HOP_SIZE (overlapBuffer st) = map (\<lambda>i. prev ! i * hann (i + HOP_SIZE)) [0..<HOP_SIZE]"

section \<open>Properties of the rounding\<close>

lemma floor_log2_bounds: "0 < n \<Longrightarrow> 2 ^ floor_log2 n \<le> n \<and> n < 2 ^ Suc (floor_log2 n)"
proof (induction n rule: floor_log2.induct)
  case (1 n)
  show ?case
  proof (cases "n < 2")
    case True
    with "1.prems" have "n = 1" by simp
    then show ?thesis by (simp add: floor_log2.simps [of "Suc 0"])
  next
    case False
    then have "0 < n div 2" by simp
    with "1.IH" False
    have IH: "2 ^ floor_log2 (n div 2) \<le> n div 2 \<and> n div 2 < 2 ^ Suc (floor_log2 (n div 2))"
      by simp
    have fl: "floor_log2 n = Suc (floor_log2 (n div 2))"
      using False by (simp add: floor_log2.simps [of n])
    from IH have "2 * 2 ^ floor_log2 (n div 2) \<le> n" by linarith
    moreover from IH have "n < 2 * 2 ^ Suc (floor_log2 (n div 2))" by linarith
    ultimately show ?thesis unfolding fl by simp
  qed
qed

lemma pow2_exp_le: "(2::real) powi a \<le> x \<Longrightarrow> x < 2 powi (b + 1) \<Longrightarrow> a \<le> b"
proof (rule ccontr)
  assume a: "(2::real) powi a \<le> x" and b: "x < 2 powi (b + 1)" and "\<not> a \<le> b"
  then have "b + 1 \<le> a" by simp
  then have "(2::real) powi (b + 1) \<le> 2 powi a" by (intro power_int_increasing) simp_all
  with a b show False by linarith
qed

lemma binade_bounds:
  assumes "x \<noteq> 0"
  shows "2 powi binade x \<le> \<bar>x\<bar>" and "\<bar>x\<bar> < 2 powi (binade x + 1)"
proof -
  have "2 powi binade x \<le> \<bar>x\<bar> \<and> \<bar>x\<bar> < 2 powi (binade x + 1)"
  proof (cases "1 \<le> \<bar>x\<bar>")
    case True
    define m where "m = nat \<lfloor>\<bar>x\<bar>\<rfloor>"
    define k where "k = floor_log2 m"
    from True have fl: "1 \<le> \<lfloor>\<bar>x\<bar>\<rfloor>" by simp
    then have m: "0 < m" and mi: "int m = \<lfloor>\<bar>x\<bar>\<rfloor>" by (simp_all add: m_def)
    from floor_log2_bounds [OF m] have b: "2 ^ k \<le> m" "m < 2 ^ Suc k" by (simp_all add: k_def)
    have be: "binade x = int k" using True by (simp add: binade_def k_def m_def)
    have rm: "real m = real_of_int \<lfloor>\<bar>x\<bar>\<rfloor>" using mi by (metis of_int_of_nat_eq)
    have "real (2 ^ k) \<le> real m" using b(1) by (rule iffD2 [OF of_nat_le_iff])
    moreover have "real (2 ^ k) = 2 ^ k" by simp
    moreover have "real_of_int \<lfloor>\<bar>x\<bar>\<rfloor> \<le> \<bar>x\<bar>" by (rule of_int_floor_le)
    ultimately have lo: "2 ^ k \<le> \<bar>x\<bar>" unfolding rm by linarith
    have "m + 1 \<le> 2 ^ Suc k" using b(2) by simp
    then have "real (m + 1) \<le> real (2 ^ Suc k)" by (rule iffD2 [OF of_nat_le_iff])
    moreover have "real (2 ^ Suc k) = 2 ^ Suc k" by simp
    moreover have "real (m + 1) = real m + 1" by simp
    moreover have "\<bar>x\<bar> < real_of_int \<lfloor>\<bar>x\<bar>\<rfloor> + 1" by linarith
    ultimately have hi: "\<bar>x\<bar> < 2 ^ Suc k" unfolding rm by linarith
    have "(2::real) powi (int k + 1) = 2 ^ Suc k"
      by (metis of_nat_Suc power_int_of_nat add.commute of_nat_1 of_nat_add Suc_eq_plus1)
    with lo hi show ?thesis unfolding be by (simp add: power_int_of_nat)
  next
    case False
    define y where "y = 1 / \<bar>x\<bar>"
    define c where "c = \<lceil>y\<rceil> - 1"
    define m where "m = nat c"
    define k where "k = floor_log2 m"
    from False assms have x: "0 < \<bar>x\<bar>" "\<bar>x\<bar> < 1" by simp_all
    then have y1: "1 < y" by (simp add: y_def)
    then have "2 \<le> \<lceil>y\<rceil>" by (simp add: le_ceiling_iff)
    then have c1: "1 \<le> c" by (simp add: c_def)
    then have m: "0 < m" and mi: "int m = c" by (simp_all add: m_def)
    from floor_log2_bounds [OF m] have b: "2 ^ k \<le> m" "m < 2 ^ Suc k" by (simp_all add: k_def)
    have be: "binade x = - int k - 1" using False by (simp add: binade_def k_def m_def c_def y_def)
    have rm: "real m = real_of_int c" using mi by (metis of_int_of_nat_eq)
    have cy: "real_of_int c < y" "y \<le> real_of_int c + 1" by (simp_all add: c_def) linarith+
    have "real (2 ^ k) \<le> real m" using b(1) by (rule iffD2 [OF of_nat_le_iff])
    moreover have "real (2 ^ k) = 2 ^ k" by simp
    ultimately have lo: "2 ^ k < y" using cy rm by linarith
    have "m + 1 \<le> 2 ^ Suc k" using b(2) by simp
    then have "real (m + 1) \<le> real (2 ^ Suc k)" by (rule iffD2 [OF of_nat_le_iff])
    moreover have "real (2 ^ Suc k) = 2 ^ Suc k" by simp
    moreover have "real (m + 1) = real m + 1" by simp
    ultimately have hi: "y \<le> 2 ^ Suc k" using cy rm by linarith
    have xy: "\<bar>x\<bar> = 1 / y" using x by (simp add: y_def)
    have y0: "0 < y" using y1 by simp
    have p1: "(2::real) powi (- int k - 1) = 1 / 2 ^ Suc k"
    proof -
      have "- int k - 1 = - int (Suc k)" by simp
      then have "(2::real) powi (- int k - 1) = 2 powi (- int (Suc k))" by (rule arg_cong)
      also have "\<dots> = 1 / 2 powi int (Suc k)" by (rule power_int_minus_divide)
      also have "\<dots> = 1 / 2 ^ Suc k" by (simp only: power_int_of_nat)
      finally show ?thesis .
    qed
    have p2: "(2::real) powi (- int k - 1 + 1) = 1 / 2 ^ k"
    proof -
      have "- int k - 1 + 1 = - int k" by simp
      then have "(2::real) powi (- int k - 1 + 1) = 2 powi (- int k)" by (rule arg_cong)
      also have "\<dots> = 1 / 2 powi int k" by (rule power_int_minus_divide)
      also have "\<dots> = 1 / 2 ^ k" by (simp only: power_int_of_nat)
      finally show ?thesis .
    qed
    have "1 / 2 ^ Suc k \<le> 1 / y" using hi y0 by (intro divide_left_mono) simp_all
    moreover have "1 / y < 1 / 2 ^ k" using lo y0 by (simp add: field_simps)
    ultimately show ?thesis unfolding be p1 p2 xy by simp
  qed
  then show "2 powi binade x \<le> \<bar>x\<bar>" and "\<bar>x\<bar> < 2 powi (binade x + 1)" by simp_all
qed

lemma binade_unique:
  assumes "2 powi e \<le> \<bar>x\<bar>" and "\<bar>x\<bar> < 2 powi (e + 1)"
  shows "binade x = e"
proof -
  have "(0::real) < 2 powi e" by (intro zero_less_power_int) simp
  with assms(1) have "0 < \<bar>x\<bar>" by linarith
  then have x: "x \<noteq> 0" by simp
  from pow2_exp_le [OF assms(1) binade_bounds(2) [OF x]]
       pow2_exp_le [OF binade_bounds(1) [OF x] assms(2)]
  show ?thesis by simp
qed

lemma round_even_of_int [simp]: "round_even (of_int n) = n"
  by (simp add: round_even_def)

lemma round_even_le: "x \<le> of_int N \<Longrightarrow> round_even x \<le> N"
proof -
  assume a: "x \<le> of_int N"
  then have f: "\<lfloor>x\<rfloor> \<le> N" by (simp add: floor_le_iff) 
  show ?thesis
  proof (cases "\<lfloor>x\<rfloor> = N")
    case True
    then have "of_int N \<le> x" by (metis of_int_floor_le)
    with a have "x = of_int N" by simp
    then show ?thesis by simp
  next
    case False
    with f have "\<lfloor>x\<rfloor> + 1 \<le> N" by simp
    then show ?thesis by (simp add: round_even_def Let_def)
  qed
qed

lemma round_even_ge: "of_int N \<le> x \<Longrightarrow> N \<le> round_even x"
proof -
  assume "of_int N \<le> x"
  then have "N \<le> \<lfloor>x\<rfloor>" by (simp add: le_floor_iff)
  then show ?thesis by (simp add: round_even_def Let_def)
qed

lemma round_even_error: "\<bar>of_int (round_even x) - x\<bar> \<le> 1 / 2"
proof -
  have "of_int \<lfloor>x\<rfloor> \<le> x" "x < of_int \<lfloor>x\<rfloor> + 1" by linarith+
  then show ?thesis by (auto simp add: round_even_def Let_def)
qed

lemma round_even_minus: "round_even (- x) = - round_even x"
proof (cases "x = of_int \<lfloor>x\<rfloor>")
  case True
  then obtain n where "x = of_int n" ..
  then have "- x = of_int (- n)" by simp
  then show ?thesis unfolding \<open>x = of_int n\<close> by (simp only: round_even_of_int)
next
  case False
  then have lt: "of_int \<lfloor>x\<rfloor> < x" by (metis of_int_floor_le order_less_le)
  have ub: "x < of_int \<lfloor>x\<rfloor> + 1" by linarith
  have "of_int (- \<lfloor>x\<rfloor> - 1) \<le> - x" by simp linarith
  moreover have "- x < of_int (- \<lfloor>x\<rfloor> - 1) + 1" using lt by simp
  ultimately have f: "\<lfloor>- x\<rfloor> = - \<lfloor>x\<rfloor> - 1" by (rule floor_unique)
  show ?thesis
    using lt by (auto simp add: round_even_def Let_def f)
qed

lemma binade_minus [simp]: "binade (- x) = binade x"
  by (simp add: binade_def)

lemma round_binary_minus: "round_binary p emin (- x) = - round_binary p emin x"
  by (simp add: round_binary_def Let_def round_even_minus)

lemma round_binary_zero [simp]: "round_binary p emin 0 = 0"
  by (simp add: round_binary_def Let_def round_even_def)

lemma round_binary_eval:
  assumes "2 powi e \<le> \<bar>x\<bar>" and "\<bar>x\<bar> < 2 powi (e + 1)"
  shows "round_binary p emin x =
     of_int (round_even (x / 2 powi (max e emin - int p + 1))) * 2 powi (max e emin - int p + 1)"
  by (simp add: round_binary_def Let_def binade_unique [OF assms])

lemma pow2_pos [simp]: "(0::real) < 2 powi q"
  by (intro zero_less_power_int) simp

lemma round_binary_nonneg: "0 \<le> x \<Longrightarrow> 0 \<le> round_binary p emin x"
proof -
  assume "0 \<le> x"
  then have "of_int 0 \<le> x / 2 powi (max (binade x) emin - int p + 1)" by simp
  then have "0 \<le> round_even (x / 2 powi (max (binade x) emin - int p + 1))"
    by (rule round_even_ge)
  then show ?thesis by (simp add: round_binary_def Let_def)
qed

lemma round_binary_nonpos: "x \<le> 0 \<Longrightarrow> round_binary p emin x \<le> 0"
  using round_binary_nonneg [of "- x" p emin] by (simp add: round_binary_minus)

lemma round_binary_le_grid:
  assumes "x \<le> of_int N * 2 powi (max (binade x) emin - int p + 1)"
  shows "round_binary p emin x \<le> of_int N * 2 powi (max (binade x) emin - int p + 1)"
proof -
  let ?q = "max (binade x) emin - int p + 1"
  from assms have "x / 2 powi ?q \<le> of_int N" by (simp add: divide_le_eq)
  then have "round_even (x / 2 powi ?q) \<le> N" by (rule round_even_le)
  then have "real_of_int (round_even (x / 2 powi ?q)) \<le> of_int N" by simp
  then show ?thesis by (simp add: round_binary_def Let_def)
qed

lemma round_binary_ge_grid:
  assumes "of_int N * 2 powi (max (binade x) emin - int p + 1) \<le> x"
  shows "of_int N * 2 powi (max (binade x) emin - int p + 1) \<le> round_binary p emin x"
proof -
  let ?q = "max (binade x) emin - int p + 1"
  from assms have "of_int N \<le> x / 2 powi ?q" by (simp add: le_divide_eq)
  then have "N \<le> round_even (x / 2 powi ?q)" by (rule round_even_ge)
  then have "real_of_int N \<le> of_int (round_even (x / 2 powi ?q))" by simp
  then show ?thesis by (simp add: round_binary_def Let_def)
qed

lemma grid_coarser:
  assumes "q \<le> j"
  shows "of_int m * 2 powi j = of_int (m * 2 ^ nat (j - q)) * (2::real) powi q"
proof -
  have "(2::real) powi j = 2 powi ((j - q) + q)" by simp
  also have "\<dots> = 2 powi (j - q) * 2 powi q" by (rule power_int_add) simp
  also have "(2::real) powi (j - q) = 2 ^ nat (j - q)"
    using assms by (simp add: power_int_def)
  finally show ?thesis by simp
qed

lemma pow2_add: "(2::real) powi (a + b) = 2 powi a * 2 powi b"
  by (rule power_int_add) simp

lemma pow2_nat: "(2::real) powi int n = 2 ^ n"
  by (rule power_int_of_nat)

lemma pow2_mono: "a \<le> b \<Longrightarrow> (2::real) powi a \<le> 2 powi b"
  by (intro power_int_increasing) simp_all

lemma round_binary_le:
  assumes c: "x \<le> of_int m * 2 powi j" and m: "0 \<le> m" "m < 2 ^ p"
    and j: "emin - int p + 1 \<le> j"
  shows "round_binary p emin x \<le> of_int m * 2 powi j"
proof (cases "x \<le> 0")
  case True
  have "0 \<le> of_int m * (2::real) powi j" using m(1) by simp
  with round_binary_nonpos [OF True, of p emin] show ?thesis by linarith
next
  case False
  then have x: "x \<noteq> 0" "\<bar>x\<bar> = x" by simp_all
  let ?q = "max (binade x) emin - int p + 1"
  have "?q \<le> j"
  proof (rule ccontr)
    assume "\<not> ?q \<le> j"
    with j have e: "int p + j \<le> binade x" by (simp add: max_def split: if_splits)
    have "real_of_int m < 2 ^ p" using m(2) by (metis of_int_less_iff of_int_numeral of_int_power)
    then have "of_int m * 2 powi j < 2 ^ p * (2::real) powi j" by simp
    also have "\<dots> = 2 powi (int p + j)" by (simp add: pow2_add pow2_nat)
    also have "\<dots> \<le> 2 powi binade x" by (rule pow2_mono [OF e])
    also have "\<dots> \<le> x" using binade_bounds(1) [OF x(1)] x(2) by simp
    finally show False using c by simp
  qed
  then have g: "of_int m * 2 powi j = of_int (m * 2 ^ nat (j - ?q)) * (2::real) powi ?q"
    by (rule grid_coarser)
  have "x \<le> of_int (m * 2 ^ nat (j - ?q)) * 2 powi ?q" using c unfolding g .
  from round_binary_le_grid [OF this] show ?thesis unfolding g .
qed

lemma round_binary_ge:
  assumes c: "of_int m * 2 powi j \<le> x" and m: "0 \<le> m" "m < 2 ^ p"
    and j: "emin - int p + 1 \<le> j" and p: "0 < p"
  shows "of_int m * 2 powi j \<le> round_binary p emin x"
proof (cases "m = 0")
  case True
  with c have "0 \<le> x" by simp
  from round_binary_nonneg [OF this, of p emin] True show ?thesis by simp
next
  case False
  with m have "0 < real_of_int m * 2 powi j" by simp
  with c have x: "x \<noteq> 0" "\<bar>x\<bar> = x" "0 < x" by simp_all
  let ?q = "max (binade x) emin - int p + 1"
  show ?thesis
  proof (cases "?q \<le> j")
    case True
    then have g: "of_int m * 2 powi j = of_int (m * 2 ^ nat (j - ?q)) * (2::real) powi ?q"
      by (rule grid_coarser)
    have "of_int (m * 2 ^ nat (j - ?q)) * 2 powi ?q \<le> x" using c unfolding g .
    from round_binary_ge_grid [OF this] show ?thesis unfolding g .
  next
    case False
    with j have e: "emin < binade x" "int p + j \<le> binade x"
      by (simp_all add: max_def split: if_splits)
    then have q: "?q = binade x - int p + 1" by simp
    have pp: "int p - 1 = int (p - 1)" using p by simp
    have "(2::real) powi binade x = 2 powi (int (p - 1) + ?q)"
      unfolding q pp [symmetric] by simp
    also have "\<dots> = of_int (2 ^ (p - 1)) * 2 powi ?q"
      by (simp add: pow2_add pow2_nat)
    finally have g: "(2::real) powi binade x = of_int (2 ^ (p - 1)) * 2 powi ?q" .
    have "of_int (2 ^ (p - 1)) * 2 powi ?q \<le> x"
      using binade_bounds(1) [OF x(1)] x(2) unfolding g by simp
    from round_binary_ge_grid [OF this]
    have lo: "2 powi binade x \<le> round_binary p emin x" unfolding g .
    have "real_of_int m < 2 ^ p" using m(2) by (metis of_int_less_iff of_int_numeral of_int_power)
    then have "of_int m * 2 powi j < 2 ^ p * (2::real) powi j" by simp
    also have "\<dots> = 2 powi (int p + j)" by (simp add: pow2_add pow2_nat)
    also have "\<dots> \<le> 2 powi binade x" by (rule pow2_mono [OF e(2)])
    finally show ?thesis using lo by linarith
  qed
qed

lemma round_binary_exact:
  assumes "\<bar>m\<bar> < 2 ^ p" and "emin - int p + 1 \<le> j" and "0 < p"
  shows "round_binary p emin (of_int m * 2 powi j) = of_int m * 2 powi j"
proof -
  have pos: "round_binary p emin (of_int k * 2 powi j) = of_int k * 2 powi j"
    if "0 \<le> k" "k < 2 ^ p" for k
    using round_binary_le [OF order_refl that assms(2)]
      round_binary_ge [OF order_refl that assms(2,3)]
    by (rule antisym)
  show ?thesis
  proof (cases "0 \<le> m")
    case True
    with assms(1) show ?thesis by (intro pos) simp_all
  next
    case False
    with assms(1) have "round_binary p emin (of_int (- m) * 2 powi j) = of_int (- m) * 2 powi j"
      by (intro pos) simp_all
    then show ?thesis using round_binary_minus [of p emin "of_int m * 2 powi j"] by simp
  qed
qed

lemma round_binary_int:
  assumes "\<bar>k\<bar> < 2 ^ p" and "emin \<le> int p - 1" and "0 < p"
  shows "round_binary p emin (of_int k) = of_int k"
  using round_binary_exact [OF assms(1) _ assms(3), of emin 0] assms(2) by simp

lemma round_binary_error:
  assumes "2 powi emin \<le> \<bar>x\<bar>"
  shows "\<bar>round_binary p emin x - x\<bar> \<le> \<bar>x\<bar> * 2 powi (- int p)"
proof -
  have "(0::real) < 2 powi emin" by simp
  with assms have "0 < \<bar>x\<bar>" by linarith
  then have x: "x \<noteq> 0" by simp
  have e: "emin \<le> binade x" by (rule pow2_exp_le [OF assms binade_bounds(2) [OF x]])
  define q where "q = binade x - int p + 1"
  define t where "t = x / 2 powi q"
  have R: "round_binary p emin x = of_int (round_even t) * 2 powi q"
    using e by (simp add: round_binary_def Let_def q_def t_def max_def)
  have xt: "x = t * 2 powi q" by (simp add: t_def)
  have "(of_int (round_even t) - t) * 2 powi q = of_int (round_even t) * 2 powi q - t * 2 powi q"
    by (simp add: algebra_simps)
  also have "\<dots> = round_binary p emin x - x" unfolding R xt [symmetric] ..
  finally have "round_binary p emin x - x = (of_int (round_even t) - t) * 2 powi q" ..
  then have "\<bar>round_binary p emin x - x\<bar> = \<bar>of_int (round_even t) - t\<bar> * 2 powi q"
    by (simp add: abs_mult)
  also have "\<dots> \<le> 1 / 2 * 2 powi q"
    by (intro mult_right_mono round_even_error) simp
  also have "1 / 2 * (2::real) powi q = 2 powi (binade x + - int p)"
  proof -
    have "(2::real) powi q = 2 powi ((binade x + - int p) + 1)" by (simp add: q_def)
    also have "\<dots> = 2 powi (binade x + - int p) * 2 powi 1" by (rule pow2_add)
    finally show ?thesis by simp
  qed
  also have "\<dots> = 2 powi binade x * 2 powi (- int p)" by (rule pow2_add)
  also have "\<dots> \<le> \<bar>x\<bar> * 2 powi (- int p)"
    by (intro mult_right_mono binade_bounds(1) [OF x]) simp
  finally show ?thesis .
qed

lemma float_eval:
  assumes "2 powi e \<le> \<bar>x\<bar>" and "\<bar>x\<bar> < 2 powi (e + 1)"
  shows "float_round x =
     of_int (round_even (x / 2 powi (max e (- 126) - 23))) * 2 powi (max e (- 126) - 23)"
  using round_binary_eval [OF assms, of 24 "- 126"] by (simp add: float_round_def)

lemma double_eval:
  assumes "2 powi e \<le> \<bar>x\<bar>" and "\<bar>x\<bar> < 2 powi (e + 1)"
  shows "double_round x =
     of_int (round_even (x / 2 powi (max e (- 1022) - 52))) * 2 powi (max e (- 1022) - 52)"
  using round_binary_eval [OF assms, of 53 "- 1022"] by (simp add: double_round_def)

lemma float_round_int: "\<bar>k\<bar> < 16777216 \<Longrightarrow> float_round (of_int k) = of_int k"
  using round_binary_int [of k 24 "- 126"] by (simp add: float_round_def)

lemma double_round_int: "\<bar>k\<bar> < 9007199254740992 \<Longrightarrow> double_round (of_int k) = of_int k"
  using round_binary_int [of k 53 "- 1022"] by (simp add: double_round_def)

lemma float_round_zero [simp]: "float_round 0 = 0"
  by (simp add: float_round_def)

lemma double_round_zero [simp]: "double_round 0 = 0"
  by (simp add: double_round_def)

lemma float_round_one [simp]: "float_round 1 = 1"
  using float_round_int [of 1] by simp

lemma float_round_nat: "n < 16777216 \<Longrightarrow> float_round (real n) = real n"
  using float_round_int [of "int n"] by simp

lemma double_round_nat: "n < 9007199254740992 \<Longrightarrow> double_round (real n) = real n"
  using double_round_int [of "int n"] by simp

lemma float_round_nonneg: "0 \<le> x \<Longrightarrow> 0 \<le> float_round x"
  unfolding float_round_def by (rule round_binary_nonneg)

lemma double_round_nonneg: "0 \<le> x \<Longrightarrow> 0 \<le> double_round x"
  unfolding double_round_def by (rule round_binary_nonneg)


lemma double_round_le_int:
  "x \<le> of_int m \<Longrightarrow> 0 \<le> m \<Longrightarrow> m < 9007199254740992 \<Longrightarrow> double_round x \<le> of_int m"
  using round_binary_le [of x m 0 53 "- 1022"] by (simp add: double_round_def)

lemma double_round_ge_int:
  "of_int m \<le> x \<Longrightarrow> 0 \<le> m \<Longrightarrow> m < 9007199254740992 \<Longrightarrow> of_int m \<le> double_round x"
  using round_binary_ge [of m 0 x 53 "- 1022"] by (simp add: double_round_def)

lemma double_round_ge_pow2:
  "2 powi j \<le> x \<Longrightarrow> - 1074 \<le> j \<Longrightarrow> 2 powi j \<le> double_round x"
  using round_binary_ge [of 1 j x 53 "- 1022"] by (simp add: double_round_def)

lemma double_round_le_pow2:
  "x \<le> 2 powi j \<Longrightarrow> - 1074 \<le> j \<Longrightarrow> double_round x \<le> 2 powi j"
  using round_binary_le [of x 1 j 53 "- 1022"] by (simp add: double_round_def)

lemma double_round_error:
  "2 powi (- 1022) \<le> \<bar>x\<bar> \<Longrightarrow> \<bar>double_round x - x\<bar> \<le> \<bar>x\<bar> * 2 powi (- 53)"
  using round_binary_error [of "- 1022" x 53] by (simp add: double_round_def)

section \<open>Properties of the voice activity detector\<close>

lemma powr_minus_two: "(10::real) powr (- 2) = 1 / 100"
proof -
  have "(10::real) powr (- 2) = inverse (10 powr 2)" by (rule powr_minus)
  also have "(10::real) powr 2 = 10 ^ 2" by simp
  finally show ?thesis by simp
qed

lemma threshold_default: "float_round (10 powr float_round (- 40 / 20)) = 5368709 / 536870912"
proof -
  have "float_round (- 40 / 20) = - 2"
    using float_round_int [of "- 2"] by simp
  moreover have "float_round (1 / 100) = 5368709 / 536870912"
    using float_eval [of "- 7" "1 / 100"] by (simp add: round_even_def)
  ultimately show ?thesis by (simp add: powr_minus_two)
qed

lemma trunc_of_int [simp]: "trunc (real_of_int n) = n"
  by (simp add: trunc_def)

lemma hang_frames_default:
  "float_round (float_round (float_round (300 * float_round (real_of_int 48000)) / 1000) / 480) = 30"
proof -
  have "float_round (real_of_int 48000) = 48000" using float_round_int [of 48000] by simp
  moreover have "float_round 14400000 = 14400000" using float_round_int [of 14400000] by simp
  moreover have "float_round 14400 = 14400" using float_round_int [of 14400] by simp
  moreover have "float_round 30 = 30" using float_round_int [of 30] by simp
  ultimately show ?thesis by simp
qed

lemma default_detector_init: "VoiceActivityDetector_init (- 40) 300 48000 = Inr default_detector"
  unfolding VoiceActivityDetector_init_def default_detector_def DEFAULT_FRAME_SIZE_def
  using threshold_default hang_frames_default by (simp add: static_cast_int_def trunc_def)

lemma isSpeech_active:
  "isActive v f \<Longrightarrow> isSpeech v f =
     (True, v\<lparr>totalFrames := totalFrames v + 1, framesSinceActive := 0,
              activeFrames := activeFrames v + 1\<rparr>)"
  by (simp add: isSpeech_def isActive_def Let_def)

lemma isSpeech_inactive:
  "\<not> isActive v f \<Longrightarrow> isSpeech v f =
     (if framesSinceActive v + 1 < hangFrames v
      then (True, v\<lparr>totalFrames := totalFrames v + 1,
                     framesSinceActive := framesSinceActive v + 1,
                     activeFrames := activeFrames v + 1\<rparr>)
      else (False, v\<lparr>totalFrames := totalFrames v + 1,
                     framesSinceActive := framesSinceActive v + 1,
                     bypassedFrames := bypassedFrames v + 1\<rparr>))"
  by (auto simp add: isSpeech_def isActive_def Let_def)

lemma isSpeech_hangFrames [simp]: "hangFrames (snd (isSpeech v f)) = hangFrames v"
  by (cases "isActive v f") (simp_all add: isSpeech_active isSpeech_inactive)

lemma isSpeech_thresholdLinear [simp]: "thresholdLinear (snd (isSpeech v f)) = thresholdLinear v"
  by (cases "isActive v f") (simp_all add: isSpeech_active isSpeech_inactive)

lemma isActive_threshold: "thresholdLinear v' = thresholdLinear v \<Longrightarrow> isActive v' f = isActive v f"
  by (simp add: isActive_def)

lemma isActive_after [simp]: "isActive (snd (isSpeech v g)) f = isActive v f"
  by (rule isActive_threshold) simp

lemma hold_aux:
  "framesSinceActive v \<le> k \<Longrightarrow> 0 \<le> k \<Longrightarrow> i < length fs \<Longrightarrow> k + int i + 1 < hangFrames v
     \<Longrightarrow> isSpeech_results v fs ! i"
proof (induction fs arbitrary: v k i)
  case Nil
  then show ?case by simp
next
  case (Cons f fs)
  show ?case
  proof (cases i)
    case 0
    with Cons.prems show ?thesis
      by (cases "isActive v f") (simp_all add: isSpeech_active isSpeech_inactive)
  next
    case (Suc j)
    have le: "framesSinceActive (snd (isSpeech v f)) \<le> k + 1"
      using Cons.prems(1,2)
      by (cases "isActive v f") (simp_all add: isSpeech_active isSpeech_inactive)
    have "isSpeech_results (snd (isSpeech v f)) fs ! j"
      using Cons.prems Suc by (intro Cons.IH [OF le]) simp_all
    with Suc show ?thesis by simp
  qed
qed

lemma inactive_run:
  "\<forall>g\<in>set fs. \<not> isActive v g \<Longrightarrow> i < length fs \<Longrightarrow>
     isSpeech_results v fs ! i = (framesSinceActive v + int i + 1 < hangFrames v)"
proof (induction fs arbitrary: v i)
  case Nil
  then show ?case by simp
next
  case (Cons f fs)
  from Cons.prems have f: "\<not> isActive v f" by simp
  show ?case
  proof (cases i)
    case 0
    with f show ?thesis by (simp add: isSpeech_inactive)
  next
    case (Suc j)
    have fsa: "framesSinceActive (snd (isSpeech v f)) = framesSinceActive v + 1"
      using f by (simp add: isSpeech_inactive)
    have "isSpeech_results (snd (isSpeech v f)) fs ! j =
            (framesSinceActive (snd (isSpeech v f)) + int j + 1 < hangFrames (snd (isSpeech v f)))"
      using Cons.prems Suc by (intro Cons.IH) simp_all
    with Suc fsa show ?thesis by simp
  qed
qed

text \<open>
  Claim C3, as amended. Once a frame is energy-active (its RMS is above the linear
  threshold, the \<^verbatim>\<open>isActive\<close> of the source), that call of \<^const>\<open>isSpeech\<close> returns true and
  so do the next \<open>hangFrames - 1\<close> calls, whatever frames they are given.
\<close>

theorem hang_time_hold:
  assumes "isActive v f" and "length fs \<le> nat (hangFrames v - 1)"
  shows "fst (isSpeech v f) \<and> list_all (\<lambda>r. r) (isSpeech_results (snd (isSpeech v f)) fs)"
proof -
  let ?v' = "snd (isSpeech v f)"
  have fsa: "framesSinceActive ?v' \<le> 0" using assms(1) by (simp add: isSpeech_active)
  have len: "length (isSpeech_results w fs) = length fs" for w
    by (induction fs arbitrary: w) simp_all
  have "isSpeech_results ?v' fs ! i" if "i < length fs" for i
    using that assms(2) by (intro hold_aux [OF fsa]) simp_all
  then have "list_all (\<lambda>r. r) (isSpeech_results ?v' fs)"
    by (simp add: list_all_length len)
  with assms(1) show ?thesis by (simp add: isSpeech_active)
qed

lemma rms_one: "rms [1] = 1"
  by (simp add: rms_def sumSquares_def)

lemma rms_zero: "rms (replicate n 0) = 0"
proof -
  have "fold (\<lambda>sample s. float_round (s + float_round (sample * sample))) (replicate n 0) 0 = 0"
    by (induction n) simp_all
  then show ?thesis by (simp add: rms_def sumSquares_def)
qed

lemma active_one: "isActive default_detector [1]"
  by (simp add: isActive_def rms_one default_detector_def)

lemma inactive_zero: "0 \<le> thresholdLinear v \<Longrightarrow> \<not> isActive v (replicate n 0)"
  by (simp add: isActive_def rms_zero)

lemma isSpeech_results_length [simp]: "length (isSpeech_results v fs) = length fs"
  by (induction fs arbitrary: v) simp_all

theorem hang_time_hold_witness:
  "isActive default_detector [1] \<and> length [[0::real], [5]] \<le> nat (hangFrames default_detector - 1)
   \<and> isSpeech_results (snd (isSpeech default_detector [1])) [[0], [5]] = [True, True]"
  using hang_time_hold [of default_detector "[1]" "[[0], [5]]"] active_one
  by (simp add: default_detector_def)

lemma not_all_true: "i < length xs \<Longrightarrow> \<not> xs ! i \<Longrightarrow> \<not> list_all (\<lambda>r. r) xs"
  by (auto simp add: list_all_length)

lemma after_one:
  "snd (isSpeech default_detector [1]) =
     default_detector\<lparr>totalFrames := 1, framesSinceActive := 0, activeFrames := 1\<rparr>"
  using active_one by (simp add: isSpeech_active default_detector_def)

lemma after_one_fields:
  "framesSinceActive (snd (isSpeech default_detector [1])) = 0"
  "hangFrames (snd (isSpeech default_detector [1])) = 30"
  "bypassedFrames (snd (isSpeech default_detector [1])) = 0"
  "hangFrames default_detector = 30"
  by (simp_all add: after_one) (simp_all add: default_detector_def)

lemma inactive_default_zero: "\<not> isActive default_detector (replicate n 0)"
  by (rule inactive_zero) (simp add: default_detector_def)

lemma inactive_default_zero1: "\<not> isActive default_detector [0]"
  using inactive_default_zero [of 1] by simp

text \<open>
  Claim C3 as stated counts every call that returns true as "classified active". A call
  that returns true only because of the hang time does not restart the hold: in the
  detector of \<^verbatim>\<open>PoiseProcessor\<close> (\<open>hangFrames = 30\<close>), after one loud frame a silent
  frame is still reported as speech, but the 29th call after that silent frame returns
  false.
\<close>

theorem hold_after_any_true_counterexample:
  "fst (isSpeech (snd (isSpeech default_detector [1])) [0]) \<and>
   length (replicate 29 [0::real]) = nat (hangFrames (snd (isSpeech default_detector [1])) - 1) \<and>
   \<not> list_all (\<lambda>r. r)
        (isSpeech_results (snd (isSpeech (snd (isSpeech default_detector [1])) [0]))
           (replicate 29 [0]))"
proof -
  let ?v1 = "snd (isSpeech default_detector [1])"
  let ?v2 = "snd (isSpeech ?v1 [0])"
  have n1: "\<not> isActive ?v1 [0]" using inactive_default_zero1 by simp
  have first: "fst (isSpeech ?v1 [0])"
    using n1 by (simp add: isSpeech_inactive after_one_fields)
  have fsa: "framesSinceActive ?v2 = 1"
    using n1 by (simp add: isSpeech_inactive after_one_fields)
  have "isSpeech_results ?v2 (replicate 29 [0]) ! 28 =
          (framesSinceActive ?v2 + int 28 + 1 < hangFrames ?v2)"
    using inactive_default_zero1 by (intro inactive_run) simp_all
  then have "\<not> isSpeech_results ?v2 (replicate 29 [0]) ! 28"
    by (simp add: fsa after_one_fields)
  then have "\<not> list_all (\<lambda>r. r) (isSpeech_results ?v2 (replicate 29 [0]))"
    by (intro not_all_true [of 28]) simp_all
  with first show ?thesis by (simp add: after_one_fields)
qed

lemma init_hangFrames:
  "VoiceActivityDetector_init dB hangTimeMs rate = Inr v0 \<Longrightarrow>
     hangFrames v0 =
       trunc (float_round
                (float_round (float_round (hangTimeMs * float_round (real_of_int rate)) / 1000)
                   / 480))"
  by (auto simp add: VoiceActivityDetector_init_def static_cast_int_def DEFAULT_FRAME_SIZE_def
      split: if_splits)

lemma isSpeech_final_hangFrames [simp]: "hangFrames (isSpeech_final v fs) = hangFrames v"
  by (induction fs arbitrary: v) simp_all

text \<open>
  Claim C4, as amended. In every state reached from a detector that the constructor
  built, the member \<open>hangFrames\<close> is the truncation of \<open>hangTimeMs * rate / 1000 / 480\<close> as
  the constructor evaluates it, in \<^verbatim>\<open>float\<close> with a rounding after each operation; and
  after an energy-active frame the \<open>i\<close>-th following frame (counted from 0) of a run of
  frames below the threshold is reported as speech exactly when \<open>i + 1 < hangFrames\<close>: the
  hold lasts \<open>hangFrames - 1\<close> frames, not \<open>hangFrames\<close>.
\<close>

theorem hang_time_length:
  assumes "VoiceActivityDetector_init dB hangTimeMs rate = Inr v0"
    and "v = isSpeech_final v0 pre"
    and "isActive v f"
    and "\<forall>g\<in>set fs. \<not> isActive v g"
  shows "hangFrames v =
           trunc (float_round
                    (float_round (float_round (hangTimeMs * float_round (real_of_int rate)) / 1000)
                       / 480)) \<and>
         (\<forall>i<length fs.
            isSpeech_results (snd (isSpeech v f)) fs ! i = (int i + 1 < hangFrames v))"
proof -
  have h: "hangFrames v =
      trunc (float_round
               (float_round (float_round (hangTimeMs * float_round (real_of_int rate)) / 1000)
                  / 480))"
    using init_hangFrames [OF assms(1)] assms(2) by simp
  let ?v' = "snd (isSpeech v f)"
  have fsa: "framesSinceActive ?v' = 0" using assms(3) by (simp add: isSpeech_active)
  have "isSpeech_results ?v' fs ! i = (int i + 1 < hangFrames v)" if "i < length fs" for i
  proof -
    have "isSpeech_results ?v' fs ! i = (framesSinceActive ?v' + int i + 1 < hangFrames ?v')"
      using assms(4) that by (intro inactive_run) simp_all
    then show ?thesis by (simp add: fsa)
  qed
  with h show ?thesis by simp
qed

theorem hang_time_length_witness:
  "VoiceActivityDetector_init (- 40) 300 48000 = Inr default_detector \<and>
   default_detector = isSpeech_final default_detector [] \<and>
   isActive default_detector [1] \<and> \<not> isActive default_detector [0] \<and>
   hangFrames default_detector = 30 \<and>
   isSpeech_results (snd (isSpeech default_detector [1])) [[0], [0]] = [True, True]"
  using hang_time_length [OF default_detector_init, of default_detector "[]" "[1]" "[[0], [0]]"]
    active_one inactive_default_zero1 default_detector_init
  by (simp add: default_detector_def All_less_Suc list_eq_iff_nth_eq nth_Cons')

text \<open>
  For the default arguments the three \<^verbatim>\<open>float\<close> operations are exact. They are not for all
  arguments: with a hang time of 89510 ms at 48 kHz the constructor stores 8950 frames,
  where the quotient of the reals is 8951.
\<close>

lemma hang_frames_rounded:
  assumes "VoiceActivityDetector_init dB 89510 48000 = Inr v0"
  shows "hangFrames v0 = 8950" and "trunc (89510 * real_of_int 48000 / 1000 / 480) = 8951"
proof -
  have a: "float_round 48000 = 48000" using float_round_int [of 48000] by simp
  have b: "float_round 4296480000 = 4296479744"
    using float_eval [of 32 4296480000] by (simp add: round_even_def)
  have c: "float_round (537059968 / 125) = 8592959 / 2"
    using float_eval [of 22 "4296479744 / 1000"] by (simp add: round_even_def)
  have d: "float_round (8592959 / 960) = 9165823 / 1024"
    using float_eval [of 13 "8592959 / 2 / 480"] by (simp add: round_even_def)
  from init_hangFrames [OF assms] show "hangFrames v0 = 8950"
    by (simp add: a b c d trunc_def)
  show "trunc (89510 * real_of_int 48000 / 1000 / 480) = 8951"
    by (simp add: trunc_def)
qed

text \<open>
  Claim C4 as stated promises \<open>hangFrames\<close> held frames. With \<open>hangFrames = 30\<close>, the
  30th silent frame after a loud one is reported as silence.
\<close>

theorem hang_frames_subsequent_counterexample:
  "isActive default_detector [1] \<and> \<not> isActive default_detector [0] \<and>
   length (replicate 30 [0::real]) = nat (hangFrames default_detector) \<and>
   \<not> list_all (\<lambda>r. r)
        (isSpeech_results (snd (isSpeech default_detector [1])) (replicate 30 [0]))"
proof -
  let ?v1 = "snd (isSpeech default_detector [1])"
  have "isSpeech_results ?v1 (replicate 30 [0]) ! 29 =
          (framesSinceActive ?v1 + int 29 + 1 < hangFrames ?v1)"
    using inactive_default_zero1 by (intro inactive_run) simp_all
  then have "\<not> isSpeech_results ?v1 (replicate 30 [0]) ! 29"
    by (simp add: after_one_fields)
  then have "\<not> list_all (\<lambda>r. r) (isSpeech_results ?v1 (replicate 30 [0]))"
    by (intro not_all_true [of 29]) simp_all
  with active_one inactive_default_zero1 show ?thesis by (simp add: default_detector_def)
qed









section \<open>Properties of the frame processor\<close>

lemma default_processor_init: "PoiseProcessor_init (- 40) (- 60) = Inr default_processor"
  by (simp add: PoiseProcessor_init_def DEFAULT_SAMPLE_RATE_def default_detector_init
      default_processor_def DEFAULT_FRAME_SIZE_def)

lemma normalizeFrameSize_eq:
  "normalizeFrameSize p audio =
     take (frameSize p) audio @ replicate (frameSize p - length audio) 0"
  by (simp add: normalizeFrameSize_def Let_def min_def)

lemma normalizeFrameSize_length [simp]: "length (normalizeFrameSize p audio) = frameSize p"
  by (simp add: normalizeFrameSize_eq)

lemma normalizeOutputShape_eq:
  "output \<noteq> [] \<Longrightarrow> normalizeOutputShape p output fallback = normalizeFrameSize p output"
  by (simp add: normalizeOutputShape_def normalizeFrameSize_def)

lemma processFrame_silence:
  "\<not> fst (isSpeech (vad p) (normalizeFrameSize p inputFrame)) \<Longrightarrow>
     processFrame p inputFrame cb dt =
       (normalizeFrameSize p inputFrame,
        p\<lparr>vad := snd (isSpeech (vad p) (normalizeFrameSize p inputFrame))\<rparr>)"
  by (simp add: processFrame_def Let_def split_beta)

lemma processFrame_speech:
  "fst (isSpeech (vad p) (normalizeFrameSize p inputFrame)) \<Longrightarrow>
     fst (processFrame p inputFrame cb dt) =
       postprocessAudio
         (normalizeOutputShape p
            (fst (cb (normalizeFrameSize p inputFrame) (states p) (attenLimDb p)))
            (normalizeFrameSize p inputFrame))"
  by (simp add: processFrame_def Let_def split_beta normalizeOutputShape_def)

text \<open>
  Claim C7. When the detector reports the normalized frame as silence, \<^const>\<open>processFrame\<close>
  returns the normalized frame itself: the input cut to 480 samples, or filled up to 480
  with zeros. Neither the result nor the new state depends on the callback; the model
  state and the frame counter are unchanged, and only the detector has moved on.
\<close>

theorem silence_passthrough:
  assumes "frameSize p = 480"
    and "\<not> fst (isSpeech (vad p) (normalizeFrameSize p inputFrame))"
  shows "processFrame p inputFrame cb dt =
           (normalizeFrameSize p inputFrame,
            p\<lparr>vad := snd (isSpeech (vad p) (normalizeFrameSize p inputFrame))\<rparr>) \<and>
         normalizeFrameSize p inputFrame =
           take 480 inputFrame @ replicate (480 - length inputFrame) 0 \<and>
         length (fst (processFrame p inputFrame cb dt)) = 480"
  using assms processFrame_silence [OF assms(2), of cb dt]
  by (simp add: normalizeFrameSize_eq)

lemma normalize_zeros:
  "n \<le> 480 \<Longrightarrow> normalizeFrameSize default_processor (replicate n 0) = replicate 480 0"
  by (simp add: normalizeFrameSize_eq default_processor_def replicate_add [symmetric])

lemma two_zeros: "[0, 0] = replicate 2 (0::real)"
  by (simp add: numeral_2_eq_2)

lemma default_silent:
  "\<not> fst (isSpeech (vad default_processor) (replicate 480 0))"
proof -
  have "\<not> fst (isSpeech default_detector (replicate 480 0))"
    using inactive_default_zero [of 480]
    by (simp add: isSpeech_inactive) (simp add: default_detector_def)
  then show ?thesis by (simp add: default_processor_def)
qed

theorem silence_passthrough_witness:
  "frameSize default_processor = 480 \<and>
   \<not> fst (isSpeech (vad default_processor) (normalizeFrameSize default_processor [0, 0])) \<and>
   fst (processFrame default_processor [0, 0] (\<lambda>frame st a. ([1], st)) 3) = replicate 480 0 \<and>
   bypassedFrames (vad (snd (processFrame default_processor [0, 0] (\<lambda>frame st a. ([1], st)) 3))) = 1"
proof -
  have fs: "frameSize default_processor = 480" by (simp add: default_processor_def)
  have nf: "normalizeFrameSize default_processor [0, 0] = replicate 480 0"
    unfolding two_zeros by (rule normalize_zeros) simp
  have sil: "\<not> fst (isSpeech (vad default_processor) (normalizeFrameSize default_processor [0, 0]))"
    unfolding nf by (rule default_silent)
  have "\<not> isActive default_detector (replicate 480 0)" by (rule inactive_default_zero)
  then have b: "bypassedFrames (snd (isSpeech default_detector (replicate 480 0))) = 1"
    by (simp add: isSpeech_inactive) (simp add: default_detector_def)
  have v: "vad default_processor = default_detector" by (simp add: default_processor_def)
  note r = silence_passthrough [OF fs sil, of "\<lambda>frame st a. ([1], st)" 3, THEN conjunct1]
  from fs sil show ?thesis
    by (simp add: r nf v b)
qed

lemma fold_max_abs:
  "fold (\<lambda>sample m. max m \<bar>sample\<bar>) xs (a::real) = Max (insert a (abs ` set xs))"
proof -
  have "(\<lambda>sample m. max m \<bar>sample\<bar>) = (max \<circ> abs :: real \<Rightarrow> real \<Rightarrow> real)"
    by (intro ext) (simp add: max.commute)
  then have "fold (\<lambda>sample m. max m \<bar>sample\<bar>) xs a = fold max (map abs xs) a"
    by (simp add: fold_map)
  also have "\<dots> = Max (set (a # map abs xs))"
    by (rule Max.set_eq_fold [symmetric])
  finally show ?thesis by simp
qed

lemma peak_nonneg: "audio \<noteq> [] \<Longrightarrow> 0 \<le> peak_amplitude audio"
proof -
  assume "audio \<noteq> []"
  then have "\<bar>hd audio\<bar> \<in> abs ` set audio" by simp
  then have "\<bar>hd audio\<bar> \<le> Max (abs ` set audio)" by (intro Max_ge) simp_all
  then show ?thesis unfolding peak_amplitude_def by linarith
qed

lemma maxVal_peak:
  "audio \<noteq> [] \<Longrightarrow> fold (\<lambda>sample m. max m \<bar>sample\<bar>) audio 0 = peak_amplitude audio"
proof -
  assume ne: "audio \<noteq> []"
  have "fold (\<lambda>sample m. max m \<bar>sample\<bar>) audio 0 = Max (insert 0 (abs ` set audio))"
    by (rule fold_max_abs)
  also have "\<dots> = max 0 (Max (abs ` set audio))"
    using ne by (intro Max_insert) simp_all
  also have "\<dots> = peak_amplitude audio"
    using peak_nonneg [OF ne] by (simp add: peak_amplitude_def)
  finally show ?thesis .
qed

lemma peak_scale:
  assumes "audio \<noteq> []" and "0 \<le> c"
  shows "peak_amplitude (map (\<lambda>sample. sample * c) audio) = peak_amplitude audio * c"
proof -
  have "abs ` set (map (\<lambda>sample. sample * c) audio) = (\<lambda>a. a * c) ` (abs ` set audio)"
    using assms(2) by (simp add: image_image abs_mult)
  moreover have "mono (\<lambda>a::real. a * c)"
    using assms(2) by (intro monoI) (simp add: mult_right_mono)
  then have "Max ((\<lambda>a. a * c) ` (abs ` set audio)) = Max (abs ` set audio) * c"
    using assms(1) by (intro mono_Max_commute [symmetric]) simp_all
  ultimately show ?thesis by (simp add: peak_amplitude_def)
qed

lemma fold_add: "fold (\<lambda>sample m. m + sample) xs (a::real) = a + sum_list xs"
  by (induction xs arbitrary: a) simp_all

lemma clamp_unit: "clamp s AUDIO_CLIP_MIN AUDIO_CLIP_MAX = max (- 1) (min 1 s)"
  by (simp add: clamp_def AUDIO_CLIP_MIN_def AUDIO_CLIP_MAX_def)

lemma postprocessAudio_steps:
  assumes "audio \<noteq> []"
  shows "postprocessAudio audio =
     (let limited =
            (if peak_amplitude audio > 98 / 100
             then map (\<lambda>s. s * (98 / 100 / peak_amplitude audio)) audio else audio);
          clipped = map (\<lambda>s. max (- 1) (min 1 s)) limited
      in map (\<lambda>s. s - mean_of clipped) clipped)"
  using assms
  by (simp add: postprocessAudio_def maxVal_peak Let_def clamp_unit fold_add mean_of_def
      SOFT_LIMITER_THRESHOLD_def)

lemma sum_list_minus_const:
  "sum_list (map (\<lambda>s. s - m) xs) = sum_list xs - real (length xs) * (m::real)"
  by (induction xs) (simp_all add: algebra_simps)

lemma mean_removed: "xs \<noteq> [] \<Longrightarrow> mean_of (map (\<lambda>s. s - mean_of xs) xs) = 0"
  by (simp add: mean_of_def sum_list_minus_const)

lemma postprocessAudio_length [simp]: "length (postprocessAudio audio) = length audio"
  by (simp add: postprocessAudio_def Let_def)

text \<open>
  Claim C8. On a non-empty frame \<^const>\<open>postprocessAudio\<close> does three things in order. (a) If
  the peak absolute amplitude is above 0.98, every sample is multiplied by \<open>0.98 / peak\<close>,
  and the peak of the scaled frame is 0.98. (b) Every sample is clamped to \<open>[-1, 1]\<close>.
  (c) The mean of the clamped frame is subtracted from every sample, and the mean of the
  result is 0. (Real arithmetic.)
\<close>

theorem postprocess_in_order:
  assumes "audio \<noteq> []"
  shows "(let limited =
                (if peak_amplitude audio > 98 / 100
                 then map (\<lambda>s. s * (98 / 100 / peak_amplitude audio)) audio else audio);
              clipped = map (\<lambda>s. max (- 1) (min 1 s)) limited
          in (peak_amplitude audio > 98 / 100 \<longrightarrow> peak_amplitude limited = 98 / 100) \<and>
             postprocessAudio audio = map (\<lambda>s. s - mean_of clipped) clipped \<and>
             mean_of (postprocessAudio audio) = 0)"
proof -
  define limited where "limited =
    (if peak_amplitude audio > 98 / 100
     then map (\<lambda>s. s * (98 / 100 / peak_amplitude audio)) audio else audio)"
  define clipped where "clipped = map (\<lambda>s. max (- 1) (min 1 s)) limited"
  have ne: "clipped \<noteq> []" using assms by (simp add: clipped_def limited_def)
  have a: "peak_amplitude limited = 98 / 100" if "peak_amplitude audio > 98 / 100"
  proof -
    define c where "c = 98 / 100 / peak_amplitude audio"
    have c: "0 \<le> c" using that by (simp add: c_def)
    have "limited = map (\<lambda>s. s * c) audio"
      using that by (simp add: limited_def c_def)
    then have "peak_amplitude limited = peak_amplitude audio * c"
      using peak_scale [OF assms c] by simp
    also have "\<dots> = 98 / 100"
      using that by (simp add: c_def)
    finally show ?thesis .
  qed
  have b: "postprocessAudio audio = map (\<lambda>s. s - mean_of clipped) clipped"
    using postprocessAudio_steps [OF assms] by (simp add: Let_def clipped_def limited_def)
  have c: "mean_of (postprocessAudio audio) = 0"
    unfolding b by (rule mean_removed [OF ne])
  from a b c show ?thesis
    unfolding Let_def limited_def [symmetric] clipped_def [symmetric] by blast
qed

theorem postprocess_in_order_witness:
  "[3 / 2, - (1 / 2)] \<noteq> ([]::real list) \<and> peak_amplitude [3 / 2, - (1 / 2)] = 3 / 2 \<and>
   peak_amplitude (map (\<lambda>s. s * (98 / 100 / peak_amplitude [3 / 2, - (1 / 2)])) [3 / 2, - (1 / 2)])
     = 98 / 100 \<and>
   mean_of (postprocessAudio [3 / 2, - (1 / 2)]) = 0"
proof -
  have p: "peak_amplitude [3 / 2, - (1 / 2)] = 3 / 2" by (simp add: peak_amplitude_def)
  from postprocess_in_order [of "[3 / 2, - (1 / 2)]"] show ?thesis
    by (simp add: Let_def p mean_of_def)
qed

text \<open>
  Claim C9. For a frame that the detector reports as speech: if the callback returns an
  empty frame, \<^const>\<open>processFrame\<close> returns the post-processed normalized input frame; if it
  returns a non-empty frame, that frame is cut or zero-filled to 480 samples exactly as
  the input is, and post-processed. The result has 480 samples either way.
\<close>

theorem empty_inference_fallback:
  assumes "frameSize p = 480"
    and "fst (isSpeech (vad p) (normalizeFrameSize p inputFrame))"
    and "out = fst (cb (normalizeFrameSize p inputFrame) (states p) (attenLimDb p))"
  shows "(out = [] \<longrightarrow>
            fst (processFrame p inputFrame cb dt) =
              postprocessAudio (normalizeFrameSize p inputFrame)) \<and>
         (out \<noteq> [] \<longrightarrow>
            normalizeOutputShape p out (normalizeFrameSize p inputFrame) = normalizeFrameSize p out \<and>
            fst (processFrame p inputFrame cb dt) =
              postprocessAudio (take 480 out @ replicate (480 - length out) 0)) \<and>
         length (fst (processFrame p inputFrame cb dt)) = 480"
proof -
  note pf = processFrame_speech [OF assms(2), of cb dt, folded assms(3)]
  have e: "fst (processFrame p inputFrame cb dt) = postprocessAudio (normalizeFrameSize p inputFrame)"
    if "out = []"
    using that pf by (simp add: normalizeOutputShape_def)
  have n: "fst (processFrame p inputFrame cb dt) =
             postprocessAudio (take 480 out @ replicate (480 - length out) 0)"
    if "out \<noteq> []"
    using that pf assms(1) by (simp add: normalizeOutputShape_eq normalizeFrameSize_eq)
  have l: "length (fst (processFrame p inputFrame cb dt)) = 480"
  proof (cases "out = []")
    case True
    with e assms(1) show ?thesis by simp
  next
    case False
    then show ?thesis unfolding pf using assms(1) by (simp add: normalizeOutputShape_eq)
  qed
  from e n l show ?thesis by (simp add: normalizeOutputShape_eq)
qed

lemma sumSquares_ones: "n < 16777216 \<Longrightarrow> sumSquares (replicate n 1) = real n"
proof -
  have "a + n < 16777216 \<Longrightarrow>
        fold (\<lambda>sample s. float_round (s + float_round (sample * sample))) (replicate n 1) (real a)
          = real (a + n)" for a
  proof (induction n arbitrary: a)
    case 0
    then show ?case by simp
  next
    case (Suc n)
    have "float_round (real a + 1) = real (Suc a)"
      using float_round_nat [of "Suc a"] Suc.prems by (simp add: add.commute)
    with Suc.IH [of "Suc a"] Suc.prems show ?case by simp
  qed
  from this [of 0] show "n < 16777216 \<Longrightarrow> sumSquares (replicate n 1) = real n"
    by (simp add: sumSquares_def)
qed

lemma normalize_full:
  "length xs = 480 \<Longrightarrow> normalizeFrameSize default_processor xs = xs"
  by (simp add: normalizeFrameSize_eq default_processor_def)

lemma default_speech:
  "fst (isSpeech (vad default_processor) (normalizeFrameSize default_processor (replicate 480 1)))"
proof -
  have "rms (replicate 480 1) = 1"
    using float_round_nat [of 480] by (simp add: rms_def sumSquares_ones)
  then have "isActive default_detector (replicate 480 1)"
    by (simp add: isActive_def default_detector_def)
  then show ?thesis
    by (simp add: normalize_full isSpeech_active) (simp add: default_processor_def isSpeech_active)
qed

theorem empty_inference_fallback_witness:
  "frameSize default_processor = 480 \<and>
   fst (isSpeech (vad default_processor) (normalizeFrameSize default_processor (replicate 480 1))) \<and>
   fst (processFrame default_processor (replicate 480 1) (\<lambda>frame st a. ([], st)) 0) =
     postprocessAudio (replicate 480 1) \<and>
   fst (processFrame default_processor (replicate 480 1) (\<lambda>frame st a. ([5, 5], st)) 0) =
     postprocessAudio ([5, 5] @ replicate 478 0)"
proof -
  have fs: "frameSize default_processor = 480" by (simp add: default_processor_def)
  note a = empty_inference_fallback [OF fs default_speech refl, of "\<lambda>frame st a. ([], st)" 0]
  note b = empty_inference_fallback [OF fs default_speech refl, of "\<lambda>frame st a. ([5, 5], st)" 0]
  from a b fs default_speech show ?thesis by (simp add: normalize_full)
qed

lemma sum_list_abs_le: "\<forall>x\<in>set xs. \<bar>x\<bar> \<le> (1::real) \<Longrightarrow> \<bar>sum_list xs\<bar> \<le> real (length xs)"
  by (induction xs) auto

lemma mean_of_abs_le:
  assumes "\<forall>x\<in>set xs. \<bar>x\<bar> \<le> (1::real)"
  shows "\<bar>mean_of xs\<bar> \<le> 1"
proof (cases "xs = []")
  case True
  then show ?thesis by (simp add: mean_of_def)
next
  case False
  then have "0 < real (length xs)" by simp
  with sum_list_abs_le [OF assms] show ?thesis
    by (simp add: mean_of_def divide_le_eq)
qed

lemma postprocessAudio_bound:
  assumes "s \<in> set (postprocessAudio audio)"
  shows "\<bar>s\<bar> \<le> 2"
proof (cases "audio = []")
  case True
  with assms show ?thesis by (simp add: postprocessAudio_def)
next
  case False
  define limited where "limited =
    (if peak_amplitude audio > 98 / 100
     then map (\<lambda>s. s * (98 / 100 / peak_amplitude audio)) audio else audio)"
  define clipped where "clipped = map (\<lambda>s. max (- 1) (min 1 s)) limited"
  have pp: "postprocessAudio audio = map (\<lambda>s. s - mean_of clipped) clipped"
    using postprocessAudio_steps [OF False] by (simp add: Let_def clipped_def limited_def)
  have c: "\<forall>x\<in>set clipped. \<bar>x\<bar> \<le> 1" by (auto simp add: clipped_def)
  from assms obtain x where x: "x \<in> set clipped" and s: "s = x - mean_of clipped"
    unfolding pp by auto
  from c x have "\<bar>x\<bar> \<le> 1" by simp
  moreover from mean_of_abs_le [OF c] have "\<bar>mean_of clipped\<bar> \<le> 1" .
  ultimately show ?thesis unfolding s by linarith
qed

lemma peak_spike: "peak_amplitude (1 # replicate 479 (- 1)) = 1"
  by (simp add: peak_amplitude_def)

lemma postprocess_spike:
  "hd (postprocessAudio (1 # replicate 479 (- 1))) = 98 / 100 + 98 / 100 * 478 / 480"
  using postprocessAudio_steps [of "1 # replicate 479 (- 1)"]
  by (simp add: peak_spike Let_def mean_of_def sum_list_replicate)

lemma spike_output:
  "fst (processFrame default_processor (replicate 480 1) spike_callback dt) =
     postprocessAudio (1 # replicate 479 (- 1))"
proof -
  have "normalizeOutputShape default_processor (1 # replicate 479 (- 1)) f = 1 # replicate 479 (- 1)" for f
    by (simp add: normalizeOutputShape_eq normalize_full)
  then show ?thesis
    by (simp add: processFrame_speech [OF default_speech] spike_callback_def)
qed

text \<open>
  Claim C10. The mean is subtracted after the clamp, so the result of \<^const>\<open>processFrame\<close>
  can leave \<open>[-1, 1]\<close>: there are a speech frame and a callback output for which a sample
  of the result is above 1 in absolute value. For every speech frame and every callback,
  every sample of the result is at most 2 in absolute value.
\<close>

theorem output_exceeds_unit_range:
  "(\<exists>p inputFrame cb dt.
      fst (isSpeech (vad p) (normalizeFrameSize p inputFrame)) \<and>
      (\<exists>s\<in>set (fst (processFrame p inputFrame cb dt)). 1 < \<bar>s\<bar>)) \<and>
   (\<forall>p inputFrame cb dt.
      fst (isSpeech (vad p) (normalizeFrameSize p inputFrame)) \<longrightarrow>
      (\<forall>s\<in>set (fst (processFrame p inputFrame cb dt)). \<bar>s\<bar> \<le> 2))"
proof (intro conjI allI impI ballI)
  let ?out = "fst (processFrame default_processor (replicate 480 1) spike_callback 0)"
  have "?out \<noteq> []" by (simp add: spike_output postprocessAudio_def Let_def)
  then have "hd ?out \<in> set ?out" by simp
  moreover have "1 < \<bar>hd ?out\<bar>" by (simp add: spike_output postprocess_spike)
  ultimately have "\<exists>s\<in>set ?out. 1 < \<bar>s\<bar>" by blast
  with default_speech show "\<exists>p inputFrame cb dt.
      fst (isSpeech (vad p) (normalizeFrameSize p inputFrame)) \<and>
      (\<exists>s\<in>set (fst (processFrame p inputFrame cb dt)). 1 < \<bar>s\<bar>)" by blast
next
  fix p inputFrame cb dt s
  assume sp: "fst (isSpeech (vad p) (normalizeFrameSize p inputFrame))"
    and s: "s \<in> set (fst (processFrame p inputFrame cb dt))"
  from s show "\<bar>s\<bar> \<le> 2"
    unfolding processFrame_speech [OF sp] by (rule postprocessAudio_bound)
qed

theorem output_exceeds_unit_range_witness:
  "fst (isSpeech (vad default_processor) (normalizeFrameSize default_processor (replicate 480 1))) \<and>
   hd (fst (processFrame default_processor (replicate 480 1) spike_callback 0)) =
     98 / 100 + 98 / 100 * 478 / 480 \<and>
   \<bar>hd (fst (processFrame default_processor (replicate 480 1) spike_callback 0))\<bar> \<le> 2"
proof -
  let ?out = "fst (processFrame default_processor (replicate 480 1) spike_callback 0)"
  have "?out \<noteq> []" by (simp add: spike_output postprocessAudio_def Let_def)
  then have "hd ?out \<in> set ?out" by simp
  with output_exceeds_unit_range default_speech have "\<bar>hd ?out\<bar> \<le> 2" by blast
  with default_speech show ?thesis by (simp add: spike_output postprocess_spike)
qed

section \<open>Properties of the streaming resampler\<close>

lemma static_cast_int_nonneg:
  "0 \<le> x \<Longrightarrow> x < 2147483648 \<Longrightarrow> static_cast_int x = Inr \<lfloor>x\<rfloor>"
  by (simp add: static_cast_int_def trunc_def)

lemma static_cast_int_Inr:
  "static_cast_int x = Inr n \<Longrightarrow> 0 \<le> x \<Longrightarrow> n = \<lfloor>x\<rfloor> \<and> x < 2147483648"
  by (auto simp add: static_cast_int_def trunc_def split: if_splits)

lemma generate_length: "generate st i k = Inr ys \<Longrightarrow> length ys = k"
  by (induction k arbitrary: i ys) (auto split: sum.splits)

lemma inv_ratio_pos:
  assumes "StreamingResampler_inv st"
  shows "0 < ratio st"
proof -
  define a where "a = inputSampleRate st"
  define b where "b = outputSampleRate st"
  from assms have a: "0 < a" "a < 2147483648" and b: "0 < b"
    and r: "ratio st = double_round (real_of_int b / real_of_int a)"
    by (simp_all add: StreamingResampler_inv_def a_def b_def)
  have "1 / 2147483648 \<le> 1 / real_of_int a"
    using a by (intro divide_left_mono) simp_all
  also have "\<dots> \<le> real_of_int b / real_of_int a"
    using a b by (intro divide_right_mono) simp_all
  finally have "2 powi (- 31) \<le> real_of_int b / real_of_int a" by simp
  then have "2 powi (- 31) \<le> ratio st"
    unfolding r by (rule double_round_ge_pow2) simp
  moreover have "(0::real) < 2 powi (- 31)" by (rule pow2_pos)
  ultimately show ?thesis by linarith
qed

lemma srcPos_range:
  assumes r: "0 < ratio st" and p: "0 \<le> phase st" "phase st < 1"
    and i: "0 \<le> i" "i < N" and N: "N < 2147483648" "real_of_int N / ratio st \<le> 2147483647"
  shows "0 \<le> double_round (double_round (real_of_int i + phase st) / ratio st)"
    and "double_round (double_round (real_of_int i + phase st) / ratio st) < 2147483648"
proof -
  let ?a = "double_round (real_of_int i + phase st)"
  have a0: "0 \<le> ?a" using i p by (intro double_round_nonneg) simp
  have "real_of_int i + 1 \<le> real_of_int N" using i(2) by linarith
  then have "real_of_int i + phase st \<le> real_of_int N" using p by linarith
  then have aN: "?a \<le> real_of_int N" using i N by (intro double_round_le_int) simp_all
  show "0 \<le> double_round (?a / ratio st)" using a0 r by (intro double_round_nonneg) simp
  have "?a / ratio st \<le> real_of_int N / ratio st" using aN r by (simp add: divide_right_mono)
  with N(2) have "?a / ratio st \<le> real_of_int 2147483647" by simp
  then have "double_round (?a / ratio st) \<le> real_of_int 2147483647"
    by (rule double_round_le_int) simp_all
  then show "double_round (?a / ratio st) < 2147483648" by simp
qed

lemma interpolate_ok:
  assumes r: "0 < ratio st" and p: "0 \<le> phase st" "phase st < 1"
    and i: "0 \<le> i" "i < N" and N: "N < 2147483648" "real_of_int N / ratio st \<le> 2147483647"
  shows "\<exists>y. interpolate st i = Inr y"
proof -
  let ?srcPos = "double_round (double_round (real_of_int i + phase st) / ratio st)"
  note b = srcPos_range [OF assms]
  define j where "j = \<lfloor>?srcPos\<rfloor>"
  have c: "static_cast_int ?srcPos = Inr j"
    unfolding j_def by (rule static_cast_int_nonneg [OF b])
  have j0: "0 \<le> j" using b(1) by (simp add: j_def)
  show ?thesis
    using r j0 by (simp add: interpolate_def Let_def c subscript_def)
qed

lemma interpolate_empty:
  assumes e: "accumulator st = []"
    and r: "0 < ratio st" and p: "0 \<le> phase st" "phase st < 1"
    and i: "0 \<le> i" "i < N" and N: "N < 2147483648" "real_of_int N / ratio st \<le> 2147483647"
  shows "interpolate st i = Inr 0"
proof -
  let ?srcPos = "double_round (double_round (real_of_int i + phase st) / ratio st)"
  note b = srcPos_range [OF r p i N]
  define j where "j = \<lfloor>?srcPos\<rfloor>"
  have c: "static_cast_int ?srcPos = Inr j"
    unfolding j_def by (rule static_cast_int_nonneg [OF b])
  have j0: "0 \<le> j" using b(1) by (simp add: j_def)
  show ?thesis
    using r j0 e by (simp add: interpolate_def Let_def c)
qed

lemma generate_ok:
  assumes r: "0 < ratio st" and p: "0 \<le> phase st" "phase st < 1"
    and N: "N < 2147483648" "real_of_int N / ratio st \<le> 2147483647"
  shows "0 \<le> i \<Longrightarrow> i + int k \<le> N \<Longrightarrow> \<exists>ys. generate st i k = Inr ys"
proof (induction k arbitrary: i)
  case 0
  then show ?case by simp
next
  case (Suc k)
  from Suc.prems have i: "0 \<le> i" "i < N" by simp_all
  from interpolate_ok [OF r p i N] obtain y where y: "interpolate st i = Inr y" ..
  have "\<exists>ys. generate st (i + 1) k = Inr ys"
    using Suc.prems by (intro Suc.IH) simp_all
  then obtain ys where "generate st (i + 1) k = Inr ys" ..
  with y show ?case by simp
qed

lemma generate_empty:
  assumes e: "accumulator st = []"
    and r: "0 < ratio st" and p: "0 \<le> phase st" "phase st < 1"
    and N: "N < 2147483648" "real_of_int N / ratio st \<le> 2147483647"
  shows "0 \<le> i \<Longrightarrow> i + int k \<le> N \<Longrightarrow> generate st i k = Inr (replicate k 0)"
proof (induction k arbitrary: i)
  case 0
  then show ?case by simp
next
  case (Suc k)
  from Suc.prems have i: "0 \<le> i" "i < N" by simp_all
  note y = interpolate_empty [OF e r p i N]
  have "generate st (i + 1) k = Inr (replicate k 0)"
    using Suc.prems by (intro Suc.IH) simp_all
  with y show ?case by simp
qed

lemma size_conversion:
  assumes "xs \<noteq> []" and "length xs < 2147483648"
  shows "double_round (real_of_int (size_minus_one target xs)) = real (length xs) - 1"
proof -
  have "size_minus_one target xs = int (length xs) - 1"
    using assms(1) by (simp add: size_minus_one_def)
  moreover have "double_round (real_of_int (int (length xs) - 1)) = real_of_int (int (length xs) - 1)"
    using assms(2) by (intro double_round_int) simp
  ultimately show ?thesis by simp
qed

lemma process_not_ready:
  assumes "inputSampleRate st \<noteq> outputSampleRate st"
    and "static_cast_int
           (double_round
              (double_round (real_of_int (size_minus_one target (accumulator st @ input)))
                 * ratio st)) = Inr avail"
    and "avail < n"
  shows "process target st input n = Inr ([], st\<lparr>accumulator := accumulator st @ input\<rparr>)"
  using assms by (simp add: process_def Let_def)

lemma process_ready:
  assumes "inputSampleRate st \<noteq> outputSampleRate st"
    and "static_cast_int
           (double_round
              (double_round (real_of_int (size_minus_one target (accumulator st @ input)))
                 * ratio st)) = Inr avail"
    and "\<not> avail < n" and "0 \<le> n"
    and "generate (st\<lparr>accumulator := accumulator st @ input\<rparr>) 0 (nat n) = Inr output"
    and "ratio st \<noteq> 0"
    and "static_cast_int (double_round (real_of_int n / ratio st)) = Inr k"
  shows "process target st input n =
     Inr (output,
          st\<lparr>accumulator :=
                (if 0 < k \<and> k \<le> int (length (accumulator st @ input))
                 then drop (nat k) (accumulator st @ input) else accumulator st @ input),
             phase :=
                fmod (double_round
                        (double_round (phase st + double_round (real_of_int n / ratio st))
                           - real_of_int k)) 1\<rparr>)"
  using assms by (simp add: process_def Let_def)

lemma process_cases:
  assumes "inputSampleRate st \<noteq> outputSampleRate st"
    and "process target st input n = Inr (out, st')"
  obtains
    (not_ready) avail where
      "static_cast_int
         (double_round
            (double_round (real_of_int (size_minus_one target (accumulator st @ input)))
               * ratio st)) = Inr avail"
      "avail < n" "out = []" "st' = st\<lparr>accumulator := accumulator st @ input\<rparr>"
  | (ready) avail k where
      "static_cast_int
         (double_round
            (double_round (real_of_int (size_minus_one target (accumulator st @ input)))
               * ratio st)) = Inr avail"
      "n \<le> avail" "0 \<le> n"
      "generate (st\<lparr>accumulator := accumulator st @ input\<rparr>) 0 (nat n) = Inr out"
      "ratio st \<noteq> 0"
      "static_cast_int (double_round (real_of_int n / ratio st)) = Inr k"
      "st' = st\<lparr>accumulator :=
                (if 0 < k \<and> k \<le> int (length (accumulator st @ input))
                 then drop (nat k) (accumulator st @ input) else accumulator st @ input),
             phase :=
                fmod (double_round
                        (double_round (phase st + double_round (real_of_int n / ratio st))
                           - real_of_int k)) 1\<rparr>"
  using assms
  by (auto simp add: process_def Let_def split: sum.splits if_splits)

lemma fmod_one_nonneg: "0 \<le> x \<Longrightarrow> fmod x 1 = frac x"
  by (simp add: fmod_def trunc_def frac_def)

lemma phase_nonneg:
  assumes "0 \<le> ph" and "0 \<le> c" and "c < 2147483648"
  shows "0 \<le> double_round (double_round (ph + c) - real_of_int \<lfloor>c\<rfloor>)"
proof -
  have k: "0 \<le> \<lfloor>c\<rfloor>" "\<lfloor>c\<rfloor> < 9007199254740992"
    using assms(2,3) by (simp_all add: floor_less_iff)
  have "real_of_int \<lfloor>c\<rfloor> \<le> ph + c" using assms(1) by linarith
  from double_round_ge_int [OF this k]
  show ?thesis by (intro double_round_nonneg) simp
qed

text \<open>Every call of \<^const>\<open>process\<close> that returns keeps the invariant: the phase stays in
  \<open>[0, 1)\<close>.\<close>

lemma process_inv:
  assumes inv: "StreamingResampler_inv st"
    and pr: "process target st input n = Inr (out, st')"
  shows "StreamingResampler_inv st'"
proof (cases "inputSampleRate st = outputSampleRate st")
  case True
  with pr have "st' = st" by (simp add: process_def)
  with inv show ?thesis by simp
next
  case False
  from False pr show ?thesis
  proof (cases rule: process_cases)
    case (not_ready avail)
    with inv show ?thesis by (simp add: StreamingResampler_inv_def)
  next
    case (ready avail k)
    let ?c = "double_round (real_of_int n / ratio st)"
    have r: "0 < ratio st" by (rule inv_ratio_pos [OF inv])
    have p0: "0 \<le> phase st" using inv by (simp add: StreamingResampler_inv_def)
    have c0: "0 \<le> ?c" using ready(3) r by (intro double_round_nonneg) simp
    from static_cast_int_Inr [OF ready(6) c0] have k: "k = \<lfloor>?c\<rfloor>" and c1: "?c < 2147483648"
      by simp_all
    have "0 \<le> double_round (double_round (phase st + ?c) - real_of_int k)"
      unfolding k by (rule phase_nonneg [OF p0 c0 c1])
    then have "phase st' = frac (double_round (double_round (phase st + ?c) - real_of_int k))"
      by (simp add: ready(7) fmod_one_nonneg)
    then have "0 \<le> phase st' \<and> phase st' < 1" by (simp add: frac_lt_1)
    with inv show ?thesis by (simp add: StreamingResampler_inv_def ready(7))
  qed
qed

lemma reset_inv: "StreamingResampler_inv st \<Longrightarrow> StreamingResampler_inv (StreamingResampler_reset st)"
  by (simp add: StreamingResampler_inv_def StreamingResampler_reset_def)

text \<open>When at least one output sample is available, the requested number of output samples
  corresponds to fewer input samples than the accumulator holds: the rounding of the
  product adds less than half a sample.\<close>

lemma ready_bound:
  fixes len :: nat
  assumes r: "0 < r" and L: "1 \<le> len" "len < 2147483648"
    and n: "0 < n" "real_of_int n \<le> double_round ((real len - 1) * r)"
  shows "real_of_int n / r \<le> real len - 1 / 2"
proof -
  let ?y = "(real len - 1) * r"
  have y0: "0 \<le> ?y" using r L by simp
  have "1 \<le> real_of_int n" using n(1) by linarith
  with n(2) have Y1: "1 \<le> double_round ?y" by linarith
  have yn: "2 powi (- 1022) \<le> \<bar>?y\<bar>"
  proof (rule ccontr)
    assume "\<not> 2 powi (- 1022) \<le> \<bar>?y\<bar>"
    with y0 have "?y \<le> 2 powi (- 1022)" by linarith
    then have "double_round ?y \<le> 2 powi (- 1022)" by (rule double_round_le_pow2) simp
    also have "(2::real) powi (- 1022) \<le> 2 powi 0" by (rule pow2_mono) simp
    finally have "double_round ?y \<le> 1" by simp
    moreover have "(2::real) powi (- 1022) < 2 powi 0"
      by (rule power_int_strict_increasing) simp_all
    ultimately show False
      using Y1 \<open>double_round ?y \<le> 2 powi (- 1022)\<close> by simp
  qed
  define u :: real where "u = 2 powi (- 53)"
  have u: "0 \<le> u" "2147483648 * u \<le> 1 / 2" by (simp_all add: u_def)
  have "double_round ?y - ?y \<le> \<bar>double_round ?y - ?y\<bar>" by simp
  also have "\<dots> \<le> \<bar>?y\<bar> * u" unfolding u_def by (rule double_round_error [OF yn])
  also have "\<bar>?y\<bar> = ?y" using y0 by simp
  finally have "double_round ?y \<le> ?y + ?y * u" by simp
  with n(2) have "real_of_int n \<le> ?y + ?y * u" by linarith
  also have "?y + ?y * u = ((real len - 1) + (real len - 1) * u) * r"
    by (simp add: algebra_simps)
  finally have "real_of_int n / r \<le> (real len - 1) + (real len - 1) * u"
    using r by (simp add: divide_le_eq)
  also have "(real len - 1) * u \<le> 2147483648 * u"
    using L u(1) by (intro mult_right_mono) simp_all
  also have "2147483648 * u \<le> 1 / 2" by (rule u(2))
  finally show ?thesis by simp
qed

text \<open>
  Claim C6, as amended. For a resampler with differing positive rates, a requested size
  \<open>outputSize > 0\<close>, and an accumulator that is not empty once the input is appended (and
  short enough for the \<^verbatim>\<open>int\<close> conversions): \<^const>\<open>process\<close> returns normally; its result is
  empty exactly when \<open>\<lfloor>(length - 1) * ratio\<rfloor> < outputSize\<close>, where \<open>ratio\<close> is the
  \<^verbatim>\<open>double\<close> that the constructor stored and the product is the rounded product of
  \<^verbatim>\<open>double\<close>; then the accumulator is the old one followed by the input and the phase is
  unchanged; otherwise the result has \<open>outputSize\<close> samples.
\<close>

theorem not_ready_semantics:
  assumes inv: "StreamingResampler_inv st"
    and diff: "inputSampleRate st \<noteq> outputSampleRate st"
    and n: "0 < outputSize"
    and ne: "accumulator st @ input \<noteq> []"
    and L: "length (accumulator st @ input) < 2147483648"
    and A: "double_round ((real (length (accumulator st @ input)) - 1) * ratio st) < 2147483648"
  shows "\<exists>out st'.
           process target st input outputSize = Inr (out, st') \<and>
           (out = [] \<longleftrightarrow>
              \<lfloor>double_round ((real (length (accumulator st @ input)) - 1) * ratio st)\<rfloor>
                < outputSize) \<and>
           (out = [] \<longrightarrow>
              accumulator st' = accumulator st @ input \<and> phase st' = phase st) \<and>
           (out \<noteq> [] \<longrightarrow> length out = nat outputSize)"
proof -
  let ?acc = "accumulator st @ input"
  let ?r = "ratio st"
  let ?st1 = "st\<lparr>accumulator := ?acc\<rparr>"
  let ?Y = "double_round ((real (length ?acc) - 1) * ?r)"
  define avail where "avail = \<lfloor>?Y\<rfloor>"
  have r: "0 < ?r" by (rule inv_ratio_pos [OF inv])
  have p: "0 \<le> phase st" "phase st < 1" using inv by (simp_all add: StreamingResampler_inv_def)
  note sz = size_conversion [OF ne L, of target]
  have L1: "1 \<le> length ?acc" using ne by (cases ?acc) simp_all
  have nn: "0 \<le> ?Y"
    using L1 r by (intro double_round_nonneg mult_nonneg_nonneg) simp_all
  have av: "static_cast_int
      (double_round (double_round (real_of_int (size_minus_one target ?acc)) * ?r)) = Inr avail"
    unfolding sz avail_def by (rule static_cast_int_nonneg [OF nn A])
  show ?thesis
  proof (cases "avail < outputSize")
    case True
    from process_not_ready [OF diff av True] True show ?thesis
      unfolding avail_def by simp
  next
    case False
    then have "real_of_int outputSize \<le> ?Y"
      unfolding avail_def by linarith
    from ready_bound [OF r L1 L n this]
    have c_le: "real_of_int outputSize / ?r \<le> real (length ?acc) - 1 / 2" .
    have N: "outputSize < 2147483648"
    proof -
      have "outputSize \<le> avail" using False by simp
      moreover have "avail < 2147483648" using A unfolding avail_def by (simp add: floor_less_iff)
      ultimately show ?thesis by simp
    qed
    have N2: "real_of_int outputSize / ?r \<le> 2147483647" using c_le L by simp
    have "\<exists>ys. generate ?st1 0 (nat outputSize) = Inr ys"
      using r p n N N2 by (intro generate_ok [where N = outputSize]) simp_all
    then obtain ys where gen: "generate ?st1 0 (nat outputSize) = Inr ys" ..
    have len: "length ys = nat outputSize" by (rule generate_length [OF gen])
    with n have o: "ys \<noteq> []" by auto
    have c0: "0 \<le> double_round (real_of_int outputSize / ?r)"
      using n r by (intro double_round_nonneg) simp
    have "real_of_int outputSize / ?r \<le> real_of_int 2147483647" using N2 by simp
    then have "double_round (real_of_int outputSize / ?r) \<le> real_of_int 2147483647"
      by (rule double_round_le_int) simp_all
    then have c1: "double_round (real_of_int outputSize / ?r) < 2147483648" by simp
    note k = static_cast_int_nonneg [OF c0 c1]
    from r have r0: "?r \<noteq> 0" by simp
    from n have n0: "0 \<le> outputSize" by simp
    from process_ready [OF diff av False n0 gen r0 k] o len False show ?thesis
      unfolding avail_def by simp
  qed
qed

lemma init_fields [simp]:
  "inputSampleRate (StreamingResampler_init a b) = a"
  "outputSampleRate (StreamingResampler_init a b) = b"
  "ratio (StreamingResampler_init a b) = double_round (real_of_int b / real_of_int a)"
  "phase (StreamingResampler_init a b) = 0"
  "accumulator (StreamingResampler_init a b) = []"
  by (simp_all add: StreamingResampler_init_def)

lemma init_inv:
  "0 < a \<Longrightarrow> a < 2147483648 \<Longrightarrow> 0 < b \<Longrightarrow> b < 2147483648 \<Longrightarrow>
     StreamingResampler_inv (StreamingResampler_init a b)"
  by (simp add: StreamingResampler_inv_def)

text \<open>The ratios of the resamplers used below, as the constructor stores them.\<close>

lemma ratio_third: "double_round (1 / 3) = 6004799503160661 / 18014398509481984"
  using double_eval [of "- 2" "1 / 3"] by (simp add: round_even_def)

lemma ratio_two: "double_round 2 = 2"
  using double_round_int [of 2] by simp

lemma three_thirds: "double_round (18014398509481983 / 18014398509481984) = 1"
  using double_eval [of "- 1" "3 * (6004799503160661 / 18014398509481984)"]
  by (simp add: round_even_def)

theorem not_ready_semantics_witness:
  "StreamingResampler_inv (StreamingResampler_init 48000 16000) \<and>
   \<lfloor>double_round ((real (length (accumulator (StreamingResampler_init 48000 16000) @ [0, 0, 0, 0::real])) - 1)
       * ratio (StreamingResampler_init 48000 16000))\<rfloor> = 1 \<and>
   (\<exists>st'. process LP64 (StreamingResampler_init 48000 16000) [0, 0, 0, 0] 2 = Inr ([], st') \<and>
      accumulator st' = [0, 0, 0, 0] \<and> phase st' = 0) \<and>
   (\<exists>out st'. process LP64 (StreamingResampler_init 48000 16000) [0, 0, 0, 0] 1 = Inr (out, st') \<and>
      length out = 1)"
proof -
  let ?st = "StreamingResampler_init 48000 16000"
  have inv: "StreamingResampler_inv ?st" by (simp add: init_inv)
  have d: "inputSampleRate ?st \<noteq> outputSampleRate ?st" by simp
  have ne: "accumulator ?st @ [0, 0, 0, 0::real] \<noteq> []" by simp
  have L: "length (accumulator ?st @ [0, 0, 0, 0::real]) < 2147483648" by simp
  have Y: "double_round ((real (length (accumulator ?st @ [0, 0, 0, 0::real])) - 1) * ratio ?st) = 1"
    using three_thirds by (simp add: ratio_third)
  have A: "double_round ((real (length (accumulator ?st @ [0, 0, 0, 0::real])) - 1) * ratio ?st)
      < 2147483648"
    unfolding Y by simp
  from not_ready_semantics [OF inv d _ ne L A, of 2 LP64]
  have two: "\<exists>st'. process LP64 ?st [0, 0, 0, 0] 2 = Inr ([], st') \<and>
      accumulator st' = [0, 0, 0, 0] \<and> phase st' = 0"
    unfolding Y by auto
  from not_ready_semantics [OF inv d _ ne L A, of 1 LP64]
  have one: "\<exists>out st'. process LP64 ?st [0, 0, 0, 0] 1 = Inr (out, st') \<and> length out = 1"
    unfolding Y by auto
  from inv two one Y show ?thesis by simp
qed

text \<open>
  Claim C6 as stated has no condition on \<open>outputSize\<close>. A request for 0 samples from a
  24 kHz to 48 kHz resampler that holds two samples is answered with an empty result,
  although \<open>\<lfloor>(2 - 1) * 2\<rfloor> = 2\<close> is not below 0.
\<close>

theorem zero_request_counterexample:
  "process LP64 (StreamingResampler_init 24000 48000) [0, 0] 0 =
     Inr ([], (StreamingResampler_init 24000 48000)\<lparr>accumulator := [0, 0]\<rparr>) \<and>
   ratio (StreamingResampler_init 24000 48000) = 2 \<and>
   \<not> \<lfloor>(real (length (accumulator (StreamingResampler_init 24000 48000) @ [0, 0::real])) - 1)
        * ratio (StreamingResampler_init 24000 48000)\<rfloor> < 0"
proof -
  let ?st = "StreamingResampler_init 24000 48000"
  have r: "ratio ?st = 2" by (simp add: ratio_two)
  have one: "double_round 1 = 1" using double_round_int [of 1] by simp
  have av: "static_cast_int
      (double_round (double_round (real_of_int (size_minus_one LP64 (accumulator ?st @ [0, 0])))
         * ratio ?st)) = Inr 2"
    by (simp add: ratio_two size_minus_one_def one static_cast_int_def trunc_def)
  have k: "static_cast_int (double_round (real_of_int 0 / ratio ?st)) = Inr 0"
    by (simp add: static_cast_int_def trunc_def)
  have gen: "generate (?st\<lparr>accumulator := accumulator ?st @ [0, 0]\<rparr>) 0 (nat 0) = Inr []"
    by simp
  have "process LP64 ?st [0, 0] 0 = Inr ([], ?st\<lparr>accumulator := [0, 0]\<rparr>)"
    using process_ready [OF _ av _ _ gen _ k]
    by (simp add: ratio_two fmod_def trunc_def)
  with r show ?thesis by (simp add: ratio_two)
qed

text \<open>The other two ways out of \<^const>\<open>process\<close> that claim C6 does not foresee: a negative
  size makes the vector constructor throw, and on an empty accumulator the unsigned
  \<open>size() - 1\<close> wraps, so that (with 64-bit \<^verbatim>\<open>size_t\<close>) the conversion to \<^verbatim>\<open>int\<close> is undefined.\<close>

lemma negative_request_throws:
  "process LP64 (StreamingResampler_init 24000 48000) [0, 0] (- 1) = Inl LengthError"
proof -
  have one: "double_round 1 = 1" using double_round_int [of 1] by simp
  show ?thesis
    by (simp add: process_def ratio_two size_minus_one_def one static_cast_int_def trunc_def)
qed

lemma size_max_converted: "double_round 18446744073709551615 = 18446744073709551616"
  using double_eval [of 63 18446744073709551615] by (simp add: round_even_def)

lemma wrapped_product: "double_round 6148914691236516864 = 6148914691236516864"
  using double_eval [of 62 6148914691236516864] by (simp add: round_even_def)

lemma empty_accumulator_undefined:
  "process LP64 (StreamingResampler_init 48000 16000) [] 160 = Inl UndefinedBehaviour"
  by (simp add: process_def size_minus_one_def ratio_third size_max_converted wrapped_product
      static_cast_int_def)

text \<open>
  Claim C2 says that whenever \<^const>\<open>process\<close> returns a non-empty result of \<open>n\<close> samples,
  \<open>\<lfloor>n / ratio\<rfloor>\<close> samples have left the front of the accumulator. On an empty accumulator
  the code does not do that. \<^verbatim>\<open>accumulator_.size() - 1\<close> wraps to \<^verbatim>\<open>SIZE_MAX\<close>; with a 32-bit
  \<^verbatim>\<open>size_t\<close> and ratio \<open>1/3\<close> the number of available output samples is then
  \<open>1431655765\<close>, so a fresh 48 kHz to 16 kHz resampler that is given no input at all returns
  160 samples (all zero) and removes nothing, where \<open>\<lfloor>160 / (1/3)\<rfloor> = 480\<close>. With a 64-bit
  \<^verbatim>\<open>size_t\<close> the same call converts about \<open>6.1e18\<close> to \<^verbatim>\<open>int\<close>, which is undefined.
\<close>

theorem empty_accumulator_request:
  "process ILP32 (StreamingResampler_init 48000 16000) [] 160 =
     Inr (replicate 160 0, StreamingResampler_init 48000 16000) \<and>
   process LP64 (StreamingResampler_init 48000 16000) [] 160 = Inl UndefinedBehaviour"
proof -
  let ?st = "StreamingResampler_init 48000 16000"
  let ?r = "6004799503160661 / 18014398509481984 :: real"
  have r: "ratio ?st = ?r" by (simp add: ratio_third)
  have sm: "double_round 4294967295 = 4294967295" using double_round_int [of 4294967295] by simp
  have pr: "double_round (4294967295 * ?r) = 1431655765"
    using double_eval [of 30 "4294967295 * ?r"] by (simp add: round_even_def)
  have av: "static_cast_int
      (double_round (double_round (real_of_int (size_minus_one ILP32 (accumulator ?st @ [])))
         * ratio ?st)) = Inr 1431655765"
    using sm pr by (simp add: ratio_third size_minus_one_def static_cast_int_def trunc_def)
  have c: "double_round (160 / ?r) = 480"
    using double_eval [of 8 "160 / ?r"] by (simp add: round_even_def)
  have k: "static_cast_int (double_round (real_of_int 160 / ratio ?st)) = Inr 480"
    using c by (simp add: ratio_third static_cast_int_def trunc_def)
  have "generate (?st\<lparr>accumulator := accumulator ?st @ []\<rparr>) 0 160 = Inr (replicate 160 0)"
    by (rule generate_empty [where N = 160]) (simp_all add: ratio_third)
  then have gen: "generate (?st\<lparr>accumulator := accumulator ?st @ []\<rparr>) 0 (nat 160) =
      Inr (replicate 160 0)" by simp
  have d: "double_round 480 = 480" using double_round_int [of 480] by simp
  have "process ILP32 ?st [] 160 = Inr (replicate 160 0, ?st)"
    using process_ready [OF _ av _ _ gen _ k] c d
    by (simp add: ratio_third fmod_def trunc_def)
  moreover have "process LP64 ?st [] 160 = Inl UndefinedBehaviour"
    by (rule empty_accumulator_undefined)
  ultimately show ?thesis by simp
qed

text \<open>
  What \<^const>\<open>process\<close> does when the accumulator is not empty after the input is appended
  and the result is not empty. The result has \<open>n = outputSize\<close> samples;
  \<open>k = \<lfloor>n / ratio\<rfloor>\<close> samples are dropped from the front of the accumulator, where the
  quotient is the rounded quotient of \<^verbatim>\<open>double\<close> by the stored ratio; the new phase is the
  fractional part of the rounded \<open>phase + n / ratio - k\<close>.
\<close>

lemma process_consumes:
  assumes inv: "StreamingResampler_inv st"
    and diff: "inputSampleRate st \<noteq> outputSampleRate st"
    and ne: "accumulator st @ input \<noteq> []"
    and L: "length (accumulator st @ input) < 2147483648"
    and pr: "process target st input n = Inr (out, st')"
    and out: "out \<noteq> []"
  shows "length out = nat n"
    and "accumulator st' =
           drop (nat \<lfloor>double_round (real_of_int n / ratio st)\<rfloor>) (accumulator st @ input)"
    and "nat \<lfloor>double_round (real_of_int n / ratio st)\<rfloor> \<le> length (accumulator st @ input)"
    and "phase st' =
           frac (double_round
                   (double_round (phase st + double_round (real_of_int n / ratio st))
                      - real_of_int \<lfloor>double_round (real_of_int n / ratio st)\<rfloor>))"
proof -
  let ?acc = "accumulator st @ input"
  let ?r = "ratio st"
  let ?c = "double_round (real_of_int n / ?r)"
  have r: "0 < ?r" by (rule inv_ratio_pos [OF inv])
  have p0: "0 \<le> phase st" using inv by (simp add: StreamingResampler_inv_def)
  from diff pr have
    "length out = nat n \<and> accumulator st' = drop (nat \<lfloor>?c\<rfloor>) ?acc \<and>
     nat \<lfloor>?c\<rfloor> \<le> length ?acc \<and>
     phase st' = frac (double_round (double_round (phase st + ?c) - real_of_int \<lfloor>?c\<rfloor>))"
  proof (cases rule: process_cases)
    case (not_ready avail)
    with out show ?thesis by simp
  next
    case (ready avail k)
    have len: "length out = nat n" by (rule generate_length [OF ready(4)])
    with out ready(3) have n: "0 < n" by (cases "n = 0") simp_all
    note sz = size_conversion [OF ne L, of target]
    have L1: "1 \<le> length ?acc" using ne by (cases ?acc) simp_all
    have nn: "0 \<le> double_round ((real (length ?acc) - 1) * ?r)"
      using L1 r by (intro double_round_nonneg mult_nonneg_nonneg) simp_all
    from static_cast_int_Inr [OF ready(1) [unfolded sz] nn]
    have avail: "avail = \<lfloor>double_round ((real (length ?acc) - 1) * ?r)\<rfloor>" by simp
    have "real_of_int n \<le> double_round ((real (length ?acc) - 1) * ?r)"
      using ready(2) unfolding avail by linarith
    from ready_bound [OF r L1 L n this]
    have "real_of_int n / ?r \<le> real_of_int (int (length ?acc))" by simp
    then have "?c \<le> real_of_int (int (length ?acc))"
      using L by (intro double_round_le_int) simp_all
    then have kL: "\<lfloor>?c\<rfloor> \<le> int (length ?acc)" by (simp add: floor_le_iff)
    have c0: "0 \<le> ?c" using n r by (intro double_round_nonneg) simp
    from static_cast_int_Inr [OF ready(6) c0] have k: "k = \<lfloor>?c\<rfloor>" and c1: "?c < 2147483648"
      by simp_all
    have k0: "0 \<le> k" using c0 by (simp add: k)
    have acc: "accumulator st' = drop (nat k) ?acc"
      using k0 kL by (cases "k = 0") (simp_all add: ready(7) k)
    have "0 \<le> double_round (double_round (phase st + ?c) - real_of_int k)"
      unfolding k by (rule phase_nonneg [OF p0 c0 c1])
    then have ph: "phase st' = frac (double_round (double_round (phase st + ?c) - real_of_int k))"
      by (simp add: ready(7) fmod_one_nonneg)
    from len acc ph kL k0 show ?thesis unfolding k by simp
  qed
  then show "length out = nat n"
    and "accumulator st' = drop (nat \<lfloor>?c\<rfloor>) ?acc"
    and "nat \<lfloor>?c\<rfloor> \<le> length ?acc"
    and "phase st' = frac (double_round (double_round (phase st + ?c) - real_of_int \<lfloor>?c\<rfloor>))"
    by simp_all
qed

text \<open>
  The stored ratio and the quotients by it are rounded, so these numbers are not always
  those of the exact ratio of the rates. A 3 Hz to 13 Hz resampler that holds 28 samples
  has \<open>\<lfloor>27 * 13 / 3\<rfloor> = 117\<close>, but the product of \<^verbatim>\<open>double\<close> is just below 117 and a request for
  117 samples is answered with an empty result. For 44.1 kHz to 48 kHz and 480 output
  samples the quotient of the reals is 441, and the rounded quotient is just below 441:
  440 samples are removed.
\<close>

lemma rounded_availability:
  "\<lfloor>(real (length (replicate 28 (0::real))) - 1) * (13 / 3)\<rfloor> = 117"
  "\<exists>st'. process target ((StreamingResampler_init 3 13)\<lparr>accumulator := replicate 27 0\<rparr>) [0] 117
           = Inr ([], st')"
proof -
  show "\<lfloor>(real (length (replicate 28 (0::real))) - 1) * (13 / 3)\<rfloor> = 117" by simp
  let ?st = "(StreamingResampler_init 3 13)\<lparr>accumulator := replicate 27 0\<rparr>"
  have r: "double_round (13 / 3) = 4878899596318037 / 1125899906842624"
    using double_eval [of 2 "13 / 3"] by (simp add: round_even_def)
  have ne: "accumulator ?st @ [0] \<noteq> []" by simp
  have L: "length (accumulator ?st @ [0]) < 2147483648" by simp
  have pr: "double_round (131730289100586999 / 1125899906842624) =
      8233143068786687 / 70368744177664"
    using double_eval [of 6 "27 * (4878899596318037 / 1125899906842624)"]
    by (simp add: round_even_def)
  have av: "static_cast_int
      (double_round (double_round (real_of_int (size_minus_one target (accumulator ?st @ [0])))
         * ratio ?st)) = Inr 116"
    unfolding size_conversion [OF ne L] by (simp add: r pr static_cast_int_def trunc_def)
  from process_not_ready [OF _ av, of 117]
  show "\<exists>st'. process target ?st [0] 117 = Inr ([], st')" by simp
qed

lemma rounded_consumption:
  "\<lfloor>real_of_int 480 / (48000 / 44100 :: real)\<rfloor> = 441"
  "\<lfloor>double_round (real_of_int 480 / ratio (StreamingResampler_init 44100 48000))\<rfloor> = 440"
proof -
  show "\<lfloor>real_of_int 480 / (48000 / 44100 :: real)\<rfloor> = 441" by simp
  have r: "double_round (160 / 147) = 4901877145437275 / 4503599627370496"
    using double_eval [of 0 "48000 / 44100"] by (simp add: round_even_def)
  have c: "double_round (432345564227567616 / 980375429087455) =
      7758154045587455 / 17592186044416"
    using double_eval [of 8 "480 / (4901877145437275 / 4503599627370496)"]
    by (simp add: round_even_def)
  show "\<lfloor>double_round (real_of_int 480 / ratio (StreamingResampler_init 44100 48000))\<rfloor> = 440"
    by (simp add: r c)
qed

section \<open>Properties of the short-time Fourier transform\<close>

lemma upt_0_Suc: "[0..<Suc c] = 0 # map Suc [0..<c]"
  by (simp add: upt_conv_Cons map_Suc_upt del: upt_Suc)

lemma reverse_fold:
  "fold (\<lambda>k j. 2 * j + (i div 2 ^ k) mod 2) [0..<c] a = a * 2 ^ c + rev_bits c i"
proof (induction c arbitrary: i a)
  case 0
  then show ?case by simp
next
  case (Suc c)
  have step: "(\<lambda>k j. 2 * j + (i div 2 ^ k) mod 2) \<circ> Suc = (\<lambda>k j. 2 * j + (i div 2 div 2 ^ k) mod 2)"
    by (intro ext) (simp add: div_mult2_eq)
  have "fold (\<lambda>k j. 2 * j + (i div 2 ^ k) mod 2) [0..<Suc c] a =
        fold (\<lambda>k j. 2 * j + (i div 2 div 2 ^ k) mod 2) [0..<c] (2 * a + i mod 2)"
    unfolding upt_0_Suc by (simp add: fold_map step)
  also have "\<dots> = (2 * a + i mod 2) * 2 ^ c + rev_bits c (i div 2)"
    by (rule Suc.IH)
  finally show ?case by (simp add: algebra_simps)
qed

lemma reverse_step:
  fixes i j :: nat
  shows "push_bit 1 j OR (drop_bit k i AND 1) = 2 * j + (i div 2 ^ k) mod 2"
proof -
  have "drop_bit k i AND 1 = 0 \<or> drop_bit k i AND 1 = 1"
    unfolding and_one_eq by (simp add: mod2_eq_if)
  then have "push_bit 1 j AND (drop_bit k i AND 1) = 0"
  proof
    assume "drop_bit k i AND 1 = 0"
    then show ?thesis by simp
  next
    assume "drop_bit k i AND 1 = 1"
    then show ?thesis by (simp add: and_one_eq)
  qed
  then have "push_bit 1 j OR (drop_bit k i AND 1) = push_bit 1 j + (drop_bit k i AND 1)"
    by (rule disjunctive_add_eq_or [symmetric])
  then show ?thesis
    by (simp add: and_one_eq drop_bit_eq_div)
qed

lemma reverse_index_eq: "reverse_index c i = rev_bits c i"
proof -
  have "(\<lambda>k j. push_bit 1 j OR (drop_bit k i AND 1)) = (\<lambda>k j. 2 * j + (i div 2 ^ k) mod 2)"
    by (intro ext) (rule reverse_step)
  then show ?thesis by (simp add: reverse_index_def reverse_fold)
qed

lemma rev_bits_less: "rev_bits c i < 2 ^ c"
proof (induction c arbitrary: i)
  case 0
  then show ?case by simp
next
  case (Suc c)
  have "i mod 2 = 0 \<or> i mod 2 = 1" by linarith
  with Suc.IH [of "i div 2"] show ?case by auto
qed

lemma rev_bits_top:
  "a < 2 \<Longrightarrow> r < 2 ^ c \<Longrightarrow> rev_bits (Suc c) (a * 2 ^ c + r) = 2 * rev_bits c r + a"
proof (induction c arbitrary: r)
  case 0
  then show ?case by simp
next
  case (Suc c)
  have e: "a * 2 ^ Suc c + r = 2 * (a * 2 ^ c) + r" by simp
  have m: "(a * 2 ^ Suc c + r) mod 2 = r mod 2" unfolding e by (rule mod_mult_self4)
  have d: "(a * 2 ^ Suc c + r) div 2 = a * 2 ^ c + r div 2" unfolding e by simp
  have r2: "r div 2 < 2 ^ c" using Suc.prems(2) by simp
  have "rev_bits (Suc (Suc c)) (a * 2 ^ Suc c + r) =
          (r mod 2) * 2 ^ Suc c + rev_bits (Suc c) (a * 2 ^ c + r div 2)"
    by (simp only: rev_bits.simps(2) [of "Suc c"] m d)
  also have "\<dots> = (r mod 2) * 2 ^ Suc c + (2 * rev_bits c (r div 2) + a)"
    by (simp only: Suc.IH [OF Suc.prems(1) r2])
  also have "\<dots> = 2 * rev_bits (Suc c) r + a"
    by simp
  finally show ?case .
qed

lemma rev_bits_involution: "i < 2 ^ c \<Longrightarrow> rev_bits c (rev_bits c i) = i"
proof (induction c arbitrary: i)
  case 0
  then show ?case by simp
next
  case (Suc c)
  have i2: "i div 2 < 2 ^ c" using Suc.prems by simp
  have "rev_bits (Suc c) (rev_bits (Suc c) i) =
          rev_bits (Suc c) ((i mod 2) * 2 ^ c + rev_bits c (i div 2))"
    by simp
  also have "\<dots> = 2 * rev_bits c (rev_bits c (i div 2)) + i mod 2"
    by (rule rev_bits_top) (simp_all add: rev_bits_less)
  also have "\<dots> = i"
    by (simp add: Suc.IH [OF i2])
  finally show ?case .
qed

lemma count_bits_power: "c \<le> m \<Longrightarrow> count_bits (2 ^ m) c = m"
proof (induction "m - c" arbitrary: c)
  case 0
  then have "c = m" by simp
  then show ?case by (simp add: count_bits.simps [of "2 ^ m" m])
next
  case (Suc d)
  then have lt: "c < m" by simp
  then have "(2::nat) ^ c < 2 ^ m" by simp
  then have "count_bits (2 ^ m) c = count_bits (2 ^ m) (Suc c)"
    by (simp add: count_bits.simps [of "2 ^ m" c])
  also have "\<dots> = m" using Suc lt by (intro Suc.hyps(1)) simp_all
  finally show ?case .
qed

text \<open>The swap loop realises an involution of the indices.\<close>

lemma swap_step:
  assumes r: "\<And>p. p < n \<Longrightarrow> r p < n" and rr: "\<And>p. p < n \<Longrightarrow> r (r p) = p"
    and dlen: "length d = n" and t: "t < n"
    and dn: "\<And>p. p < n \<Longrightarrow> d ! p = (if p < t \<or> r p < t then data ! r p else data ! p)"
    and p: "p < n"
  shows "(if r t > t then d[t := d ! r t, r t := d ! t] else d) ! p =
           (if p < Suc t \<or> r p < Suc t then data ! r p else data ! p)"
proof -
  define j where "j = r t"
  have jn: "j < n" unfolding j_def by (rule r [OF t])
  have rj: "r j = t" unfolding j_def by (rule rr [OF t])
  have rt: "r t = j" by (simp add: j_def)
  show ?thesis
  proof (cases "t < j")
    case True
    have dj: "d ! j = data ! j" using dn [OF jn] True by (simp add: rj)
    have dt: "d ! t = data ! t" using dn [OF t] True by (simp add: rt)
    consider "p = j" | "p = t" | "p \<noteq> j" "p \<noteq> t" by blast
    then show ?thesis
    proof cases
      case 1
      have "d[t := d ! j, j := d ! t] ! j = d ! t" using jn dlen by simp
      then show ?thesis using True by (simp add: 1 rt rj dt)
    next
      case 2
      have "d[t := d ! j, j := d ! t] ! t = d ! j" using True t dlen by simp
      then show ?thesis using True by (simp add: 2 rt dj)
    next
      case 3
      have "r p \<noteq> t"
      proof
        assume "r p = t"
        then have "r (r p) = j" by (simp add: rt)
        with rr [OF p] 3(1) show False by simp
      qed
      with 3(2) have c: "(p < Suc t \<or> r p < Suc t) = (p < t \<or> r p < t)" by linarith
      have "d[t := d ! j, j := d ! t] ! p = d ! p" using 3 by simp
      then show ?thesis using True unfolding c by (simp add: rt dn [OF p])
    qed
  next
    case False
    have g: "(if r t > t then d[t := d ! r t, r t := d ! t] else d) = d"
      using False by (simp add: rt)
    show ?thesis
    proof (cases "p = t \<or> p = j")
      case True
      show ?thesis
      proof (cases "j = t")
        case jt: True
        with True have pt: "p = t" by simp
        have "d ! t = data ! t" using dn [OF t] by (simp add: rt jt)
        then show ?thesis unfolding g by (simp add: pt rt jt)
      next
        case jt: False
        with False have lt: "j < t" by simp
        from True show ?thesis
        proof
          assume pt: "p = t"
          have "d ! t = data ! j" using dn [OF t] lt by (simp add: rt)
          then show ?thesis unfolding g by (simp add: pt rt)
        next
          assume pj: "p = j"
          have "d ! j = data ! t" using dn [OF jn] lt by (simp add: rj)
          then show ?thesis unfolding g using lt by (simp add: pj rj)
        qed
      qed
    next
      case pp: False
      have "r p \<noteq> t"
      proof
        assume "r p = t"
        then have "r (r p) = j" by (simp add: rt)
        with rr [OF p] pp show False by simp
      qed
      with pp have c: "(p < Suc t \<or> r p < Suc t) = (p < t \<or> r p < t)" by linarith
      show ?thesis unfolding g c by (rule dn [OF p])
    qed
  qed
qed

lemma swap_loop:
  assumes r: "\<And>p. p < n \<Longrightarrow> r p < n" and rr: "\<And>p. p < n \<Longrightarrow> r (r p) = p"
    and len: "length data = n"
  shows "t \<le> n \<Longrightarrow>
    length (fold (\<lambda>i d. if r i > i then d[i := d ! r i, r i := d ! i] else d) [0..<t] data) = n \<and>
    (\<forall>p<n. fold (\<lambda>i d. if r i > i then d[i := d ! r i, r i := d ! i] else d) [0..<t] data ! p =
            (if p < t \<or> r p < t then data ! r p else data ! p))"
proof (induction t)
  case 0
  then show ?case using len by simp
next
  case (Suc t)
  define d where "d = fold (\<lambda>i d. if r i > i then d[i := d ! r i, r i := d ! i] else d) [0..<t] data"
  from Suc have t: "t < n" by simp
  from Suc have dlen: "length d = n"
    and dn: "\<And>p. p < n \<Longrightarrow> d ! p = (if p < t \<or> r p < t then data ! r p else data ! p)"
    unfolding d_def by simp_all
  have step: "fold (\<lambda>i d. if r i > i then d[i := d ! r i, r i := d ! i] else d) [0..<Suc t] data =
      (if r t > t then d[t := d ! r t, r t := d ! t] else d)"
    by (simp add: d_def)
  have "length (if r t > t then d[t := d ! r t, r t := d ! t] else d) = n"
    using dlen by simp
  moreover have "\<forall>p<n. (if r t > t then d[t := d ! r t, r t := d ! t] else d) ! p =
      (if p < Suc t \<or> r p < Suc t then data ! r p else data ! p)"
    using swap_step [of n r d t data, OF r rr dlen t dn] by blast
  ultimately show ?case unfolding step by blast
qed

lemma bitReverse_nth:
  assumes "length data = 2 ^ m"
  shows "length (bitReverse data (2 ^ m)) = 2 ^ m"
    and "p < 2 ^ m \<Longrightarrow> bitReverse data (2 ^ m) ! p = data ! rev_bits m p"
proof -
  have eq: "bitReverse data (2 ^ m) =
      fold (\<lambda>i d. if rev_bits m i > i then d[i := d ! rev_bits m i, rev_bits m i := d ! i] else d)
        [0..<2 ^ m] data"
    by (simp add: bitReverse_def count_bits_power reverse_index_eq Let_def)
  note s = swap_loop [where r = "rev_bits m" and n = "2 ^ m" and t = "2 ^ m" and data = data,
      OF rev_bits_less rev_bits_involution assms order_refl]
  from s show "length (bitReverse data (2 ^ m)) = 2 ^ m" unfolding eq by blast
  from s show "p < 2 ^ m \<Longrightarrow> bitReverse data (2 ^ m) ! p = data ! rev_bits m p"
    unfolding eq by simp
qed

lemma butterfly_loop:
  fixes data :: "complex list"
  assumes "start + 2 * half \<le> length data"
  shows "c \<le> half \<Longrightarrow>
     fold (\<lambda>k (w, d).
             let t = w * d ! (start + k + half);
                 u = d ! (start + k)
             in (w * wn, d[start + k := u + t, start + k + half := u - t]))
       [0..<c] (1, data) =
     (wn ^ c,
      map (\<lambda>p. if start \<le> p \<and> p < start + c
                then data ! p + wn ^ (p - start) * data ! (p + half)
                else if start + half \<le> p \<and> p < start + half + c
                then data ! (p - half) - wn ^ (p - start - half) * data ! p
                else data ! p) [0..<length data])"
proof (induction c)
  case 0
  have "data = map (\<lambda>p. data ! p) [0..<length data]" by (simp add: map_nth)
  also have "\<dots> = map (\<lambda>p. if start \<le> p \<and> p < start + 0
                then data ! p + wn ^ (p - start) * data ! (p + half)
                else if start + half \<le> p \<and> p < start + half + 0
                then data ! (p - half) - wn ^ (p - start - half) * data ! p
                else data ! p) [0..<length data]"
    by (intro map_cong refl) auto
  finally show ?case by simp
next
  case (Suc c)
  let ?g = "\<lambda>c p. if start \<le> p \<and> p < start + c
                then data ! p + wn ^ (p - start) * data ! (p + half)
                else if start + half \<le> p \<and> p < start + half + c
                then data ! (p - half) - wn ^ (p - start - half) * data ! p
                else data ! p"
  let ?d = "map (?g c) [0..<length data]"
  from Suc.prems have c: "c < half" by simp
  have i1: "start + c < length data" and i2: "start + c + half < length data"
    using assms c by simp_all
  have u: "?d ! (start + c) = data ! (start + c)"
    using i1 c by simp
  have t: "?d ! (start + c + half) = data ! (start + c + half)"
    using i2 c by simp
  have "map (?g (Suc c)) [0..<length data] =
        ?d[start + c := data ! (start + c) + wn ^ c * data ! (start + c + half),
           start + c + half := data ! (start + c) - wn ^ c * data ! (start + c + half)]"
  proof (rule nth_equalityI)
    show "length (map (?g (Suc c)) [0..<length data]) =
          length (?d[start + c := data ! (start + c) + wn ^ c * data ! (start + c + half),
           start + c + half := data ! (start + c) - wn ^ c * data ! (start + c + half)])"
      by simp
  next
    fix p
    assume "p < length (map (?g (Suc c)) [0..<length data])"
    then have p: "p < length data" by simp
    consider "p = start + c" | "p = start + c + half" | "p \<noteq> start + c" "p \<noteq> start + c + half"
      by blast
    then show "map (?g (Suc c)) [0..<length data] ! p =
          ?d[start + c := data ! (start + c) + wn ^ c * data ! (start + c + half),
           start + c + half := data ! (start + c) - wn ^ c * data ! (start + c + half)] ! p"
    proof cases
      case 1
      with i1 c show ?thesis by simp
    next
      case 2
      with i2 c show ?thesis by simp
    next
      case 3
      then have "?g (Suc c) p = ?g c p" by auto
      with 3 p show ?thesis by simp
    qed
  qed
  then have m: "?d[start + c := data ! (start + c) + wn ^ c * data ! (start + c + half),
           start + c + half := data ! (start + c) - wn ^ c * data ! (start + c + half)] =
        map (?g (Suc c)) [0..<length data]" by (rule sym)
  have "fold (\<lambda>k (w, d).
             let t = w * d ! (start + k + half);
                 u = d ! (start + k)
             in (w * wn, d[start + k := u + t, start + k + half := u - t]))
       [0..<Suc c] (1, data) =
     (\<lambda>(w, d).
             let t = w * d ! (start + c + half);
                 u = d ! (start + c)
             in (w * wn, d[start + c := u + t, start + c + half := u - t])) (wn ^ c, ?d)"
    using Suc.IH c by simp
  also have "\<dots> = (wn ^ c * wn,
       ?d[start + c := data ! (start + c) + wn ^ c * data ! (start + c + half),
           start + c + half := data ! (start + c) - wn ^ c * data ! (start + c + half)])"
    unfolding split_conv Let_def u t ..
  also have "\<dots> = (wn ^ Suc c, map (?g (Suc c)) [0..<length data])"
    unfolding m by (simp add: mult.commute)
  finally show ?case .
qed

lemma butterflies_length:
  assumes "start + 2 * half \<le> length data"
  shows "length (butterflies start half wn data) = length data"
  unfolding butterflies_def butterfly_loop [OF assms order_refl] by simp

lemma butterflies_nth:
  assumes "start + 2 * half \<le> length data" and "p < length data"
  shows "butterflies start half wn data ! p =
      (if start \<le> p \<and> p < start + half
       then data ! p + wn ^ (p - start) * data ! (p + half)
       else if start + half \<le> p \<and> p < start + 2 * half
       then data ! (p - half) - wn ^ (p - start - half) * data ! p
       else data ! p)"
proof -
  have e: "start + half + half = start + 2 * half" by simp
  show ?thesis
    using assms(2) unfolding butterflies_def butterfly_loop [OF assms(1) order_refl] e
    by simp
qed

lemma block_loop:
  fixes data :: "complex list"
  assumes h: "0 < half" and len: "length data = nb * (2 * half)"
  shows "c \<le> nb \<Longrightarrow>
     fold (\<lambda>b d. butterflies (b * (2 * half)) half wn d) [0..<c] data =
     map (\<lambda>p. if p < c * (2 * half) then stage_value half wn data p else data ! p)
       [0..<length data]"
proof (induction c)
  case 0
  then show ?case by (simp add: map_nth)
next
  case (Suc c)
  let ?sz = "2 * half"
  let ?d = "map (\<lambda>p. if p < c * ?sz then stage_value half wn data p else data ! p)
       [0..<length data]"
  from Suc.prems have c: "c < nb" by simp
  then have "Suc c * ?sz \<le> nb * ?sz" by (intro mult_le_mono1) simp
  then have fit: "c * ?sz + 2 * half \<le> length ?d" by (simp add: len)
  have "butterflies (c * ?sz) half wn ?d =
        map (\<lambda>p. if p < Suc c * ?sz then stage_value half wn data p else data ! p)
          [0..<length data]"
  proof (rule nth_equalityI)
    show "length (butterflies (c * ?sz) half wn ?d) =
          length (map (\<lambda>p. if p < Suc c * ?sz then stage_value half wn data p else data ! p)
            [0..<length data])"
      using butterflies_length [OF fit] fit by simp
  next
    fix p
    assume "p < length (butterflies (c * ?sz) half wn ?d)"
    then have p: "p < length data" using butterflies_length [OF fit] fit by simp
    then have p': "p < length ?d" by simp
    note b = butterflies_nth [OF fit p', of wn]
    consider "p < c * ?sz" | "c * ?sz \<le> p" "p < c * ?sz + half"
      | "c * ?sz + half \<le> p" "p < c * ?sz + ?sz" | "c * ?sz + ?sz \<le> p"
      by linarith
    then show "butterflies (c * ?sz) half wn ?d ! p =
          map (\<lambda>p. if p < Suc c * ?sz then stage_value half wn data p else data ! p)
            [0..<length data] ! p"
    proof cases
      case 1
      with p b show ?thesis by simp
    next
      case 2
      have ph: "p + half < length data" using 2 fit by simp
      have m: "p mod ?sz = p - c * ?sz"
      proof -
        have "p = (p - c * ?sz) + c * ?sz" using 2 by simp
        then have "p mod ?sz = ((p - c * ?sz) + c * ?sz) mod ?sz" by simp
        also have "\<dots> = (p - c * ?sz) mod ?sz" by (rule mod_mult_self1)
        also have "\<dots> = p - c * ?sz" using 2 by simp
        finally show ?thesis .
      qed
      have k: "p - c * ?sz < half" using 2 by linarith
      have "stage_value half wn data p = data ! p + wn ^ (p - c * ?sz) * data ! (p + half)"
        unfolding stage_value_def m using k by simp
      with 2 p ph b show ?thesis by simp
    next
      case 3
      have ph: "p - half < length data" using p by simp
      have m: "p mod ?sz = p - c * ?sz"
      proof -
        have "p = (p - c * ?sz) + c * ?sz" using 3 by simp
        then have "p mod ?sz = ((p - c * ?sz) + c * ?sz) mod ?sz" by simp
        also have "\<dots> = (p - c * ?sz) mod ?sz" by (rule mod_mult_self1)
        also have "\<dots> = p - c * ?sz" using 3 by simp
        finally show ?thesis .
      qed
      have k: "\<not> p - c * ?sz < half" using 3 by linarith
      have "stage_value half wn data p =
              data ! (p - half) - wn ^ (p - c * ?sz - half) * data ! p"
        unfolding stage_value_def m using k by simp
      moreover have "\<not> p - half < c * ?sz" using 3 by linarith
      ultimately show ?thesis using 3 p ph b by simp
    next
      case 4
      with p b show ?thesis by simp
    qed
  qed
  then show ?case using Suc.IH c by (simp del: upt_Suc add: upt_Suc_append)
qed

lemma twiddle_square: "0 < L \<Longrightarrow> twiddle b (2 * L) ^ 2 = twiddle b L"
  by (simp add: twiddle_def DeMoivre)

lemma twiddle_half: "0 < L \<Longrightarrow> twiddle b (2 * L) ^ L = - 1"
proof -
  assume L: "0 < L"
  have "real L * ((if b then 2 else - 2) * pi / real (2 * L)) = (if b then pi else - pi)"
    using L by simp
  then have "twiddle b (2 * L) ^ L = cis (if b then pi else - pi)"
    by (simp only: twiddle_def DeMoivre)
  also have "\<dots> = - 1"
    by (simp add: cis_cnj [symmetric])
  finally show ?thesis .
qed

lemma twiddle_full: "0 < L \<Longrightarrow> twiddle b L ^ L = 1"
proof -
  assume L: "0 < L"
  have "real L * ((if b then 2 else - 2) * pi / real L) = (if b then 2 * pi else - (2 * pi))"
    using L by simp
  then have "twiddle b L ^ L = cis (if b then 2 * pi else - (2 * pi))"
    by (simp only: twiddle_def DeMoivre)
  also have "\<dots> = 1"
    by (simp add: cis_cnj [symmetric])
  finally show ?thesis .
qed

lemma twiddle_periodic: "0 < L \<Longrightarrow> twiddle b L ^ (j * k) = twiddle b L ^ (j * (k mod L))"
proof -
  assume L: "0 < L"
  have "j * k = j * (k mod L + L * (k div L))" by simp
  also have "\<dots> = j * (k mod L) + L * (j * (k div L))" by (simp only: distrib_left mult.left_commute)
  finally have "j * k = j * (k mod L) + L * (j * (k div L))" .
  then have "twiddle b L ^ (j * k) =
      twiddle b L ^ (j * (k mod L)) * (twiddle b L ^ L) ^ (j * (k div L))"
    by (simp only: power_add power_mult)
  then show ?thesis by (simp add: twiddle_full [OF L])
qed

lemma sum_even_odd:
  fixes f :: "nat \<Rightarrow> complex"
  shows "(\<Sum>j<2 * N. f j) = (\<Sum>j<N. f (2 * j)) + (\<Sum>j<N. f (2 * j + 1))"
  by (induction N) (simp_all add: algebra_simps)

lemma fft_stage_eq:
  fixes data :: "complex list"
  assumes h: "0 < half" and len: "length data = nb * (2 * half)"
  shows "fft_stage (2 * half) (length data) b data =
         map (stage_value half (twiddle b (2 * half)) data) [0..<length data]"
proof -
  have nb: "(length data + 2 * half - 1) div (2 * half) = nb"
  proof -
    have "length data + 2 * half - 1 = (2 * half - 1) + nb * (2 * half)"
      using h len by simp
    then have "(length data + 2 * half - 1) div (2 * half)
        = ((2 * half - 1) + nb * (2 * half)) div (2 * half)" by simp
    also have "\<dots> = nb + (2 * half - 1) div (2 * half)"
      using h by (intro div_mult_self1) simp
    also have "\<dots> = nb" using h by simp
    finally show ?thesis .
  qed
  have w: "Complex (cos a) (sin a) = cis a" for a
    by (simp add: complex_eq_iff)
  have "fft_stage (2 * half) (length data) b data =
        fold (\<lambda>c d. butterflies (c * (2 * half)) half (twiddle b (2 * half)) d) [0..<nb] data"
    unfolding fft_stage_def Let_def nb w twiddle_def by simp
  also have "\<dots> = map (\<lambda>p. if p < nb * (2 * half)
                then stage_value half (twiddle b (2 * half)) data p else data ! p)
       [0..<length data]"
    by (rule block_loop [OF h len order_refl])
  also have "\<dots> = map (stage_value half (twiddle b (2 * half)) data) [0..<length data]"
    by (intro map_cong refl) (simp add: len)
  finally show ?thesis .
qed

lemma div_mod_block: "r < L \<Longrightarrow> (a * L + r) div L = a \<and> (a * L + r) mod L = (r::nat)"
  by simp

lemma dft_split:
  assumes s: "s < m"
  defines "L \<equiv> 2 ^ s" and "c \<equiv> m - Suc s"
  shows "partial_dft b m (Suc s) x p =
     (\<Sum>j<L. x ! (rev_bits c (p div (2 * L)) + j * 2 ^ Suc c)
               * twiddle b L ^ (j * (p mod (2 * L)))) +
     twiddle b (2 * L) ^ (p mod (2 * L)) *
     (\<Sum>j<L. x ! (rev_bits c (p div (2 * L)) + 2 ^ c + j * 2 ^ Suc c)
               * twiddle b L ^ (j * (p mod (2 * L))))"
proof -
  define k where "k = p mod (2 * L)"
  define r where "r = rev_bits c (p div (2 * L))"
  define V where "V = twiddle b (2 * L)"
  define W where "W = twiddle b L"
  have L: "0 < L" by (simp add: L_def)
  have VW: "V ^ 2 = W" unfolding V_def W_def by (rule twiddle_square [OF L])
  have two: "(2::nat) ^ Suc s = 2 * L" by (simp add: L_def)
  define g where "g j = x ! (r + j * 2 ^ c) * V ^ (j * k)" for j
  have "partial_dft b m (Suc s) x p = (\<Sum>j<2 * L. g j)"
    unfolding partial_dft_def two g_def r_def k_def V_def c_def ..
  also have "\<dots> = (\<Sum>j<L. g (2 * j)) + (\<Sum>j<L. g (2 * j + 1))"
    by (rule sum_even_odd)
  also have "(\<Sum>j<L. g (2 * j)) = (\<Sum>j<L. x ! (r + j * 2 ^ Suc c) * W ^ (j * k))"
  proof (rule sum.cong [OF refl])
    fix j
    have "V ^ (2 * j * k) = (V ^ 2) ^ (j * k)"
      by (simp only: power_mult [symmetric] mult.assoc)
    then have "V ^ (2 * j * k) = W ^ (j * k)" by (simp only: VW)
    moreover have "2 * j * 2 ^ c = j * 2 ^ Suc c" by simp
    ultimately show "g (2 * j) = x ! (r + j * 2 ^ Suc c) * W ^ (j * k)"
      unfolding g_def by (simp only:)
  qed
  also have "(\<Sum>j<L. g (2 * j + 1)) = V ^ k * (\<Sum>j<L. x ! (r + 2 ^ c + j * 2 ^ Suc c) * W ^ (j * k))"
  proof -
    have "g (2 * j + 1) = V ^ k * (x ! (r + 2 ^ c + j * 2 ^ Suc c) * W ^ (j * k))" for j
    proof -
      have "(2 * j + 1) * k = k + 2 * (j * k)" by (simp add: algebra_simps)
      then have "V ^ ((2 * j + 1) * k) = V ^ k * (V ^ 2) ^ (j * k)"
        by (simp only: power_add power_mult)
      then have v: "V ^ ((2 * j + 1) * k) = V ^ k * W ^ (j * k)" by (simp only: VW)
      have i: "r + (2 * j + 1) * 2 ^ c = r + 2 ^ c + j * 2 ^ Suc c" by (simp add: algebra_simps)
      show ?thesis unfolding g_def v i by (simp only: mult_ac)
    qed
    then show ?thesis by (simp only: sum_distrib_left)
  qed
  finally show ?thesis unfolding r_def k_def V_def W_def .
qed

lemma stage_step:
  assumes s: "s < m" and p: "p < 2 ^ m"
  shows "stage_value (2 ^ s) (twiddle b (2 * 2 ^ s)) (map (partial_dft b m s x) [0..<2 ^ m]) p =
         partial_dft b m (Suc s) x p"
proof -
  define L :: nat where "L = 2 ^ s"
  define c where "c = m - Suc s"
  define k where "k = p mod (2 * L)"
  define a where "a = p div (2 * L)"
  define r where "r = rev_bits c a"
  define V where "V = twiddle b (2 * L)"
  define W where "W = twiddle b L"
  define D where "D = map (partial_dft b m s x) [0..<2 ^ m]"
  define E where "E q = (\<Sum>j<L. x ! (r + j * 2 ^ Suc c) * W ^ (j * q))" for q
  define Od where "Od q = (\<Sum>j<L. x ! (r + 2 ^ c + j * 2 ^ Suc c) * W ^ (j * q))" for q
  have L: "0 < L" by (simp add: L_def)
  have ms: "m - s = Suc c" using s by (simp add: c_def)
  have pw: "(2::nat) ^ m = 2 ^ c * (2 * L)"
  proof -
    have "m = c + Suc s" using s by (simp add: c_def)
    then have "(2::nat) ^ m = 2 ^ (c + Suc s)" by simp
    then show ?thesis by (simp add: L_def power_add)
  qed
  have pk: "p = a * (2 * L) + k" by (simp only: a_def k_def div_mult_mod_eq)
  have k2: "k < 2 * L" using L by (simp add: k_def)
  have a: "a < 2 ^ c" using p unfolding a_def pw
    by (simp add: less_mult_imp_div_less mult.commute)
  have top: "a * (2 * L) + 2 * L \<le> 2 ^ m"
  proof -
    have "Suc a * (2 * L) \<le> 2 ^ c * (2 * L)" using a by (intro mult_le_mono1) simp
    then show ?thesis by (simp add: pw)
  qed
  have target: "partial_dft b m (Suc s) x p = E k + V ^ k * Od k"
    using dft_split [OF s, of b x p]
    unfolding E_def Od_def r_def a_def k_def V_def W_def c_def L_def .
  have Eper: "E q = E (q mod L)" for q
    unfolding E_def W_def by (intro sum.cong refl arg_cong2 [where f = "(*)"] twiddle_periodic L)
  have Odper: "Od q = Od (q mod L)" for q
    unfolding Od_def W_def by (intro sum.cong refl arg_cong2 [where f = "(*)"] twiddle_periodic L)
  have Dn: "D ! q = partial_dft b m s x q" if "q < 2 ^ m" for q
    using that by (simp add: D_def)
  have even: "D ! q = E (q mod L)" if "q < 2 ^ m" and "q div L = 2 * a" for q
  proof -
    have "rev_bits (Suc c) (2 * a) = r" by (simp add: r_def)
    then show ?thesis
      unfolding Dn [OF that(1)] partial_dft_def ms that(2) [unfolded L_def] E_def W_def L_def
      by (simp only:)
  qed
  have odd: "D ! q = Od (q mod L)" if "q < 2 ^ m" and "q div L = 2 * a + 1" for q
  proof -
    have "rev_bits (Suc c) (2 * a + 1) = r + 2 ^ c" by (simp add: r_def)
    then show ?thesis
      unfolding Dn [OF that(1)] partial_dft_def ms that(2) [unfolded L_def] Od_def W_def L_def
      by (simp only:)
  qed
  show ?thesis
  proof (cases "k < L")
    case True
    have e1: "p = (2 * a) * L + k" using pk by (simp add: algebra_simps)
    have e2: "p + L = (2 * a + 1) * L + k" using pk by (simp add: algebra_simps)
    have d1: "p div L = 2 * a" "p mod L = k"
      using div_mod_block [OF True, of "2 * a"] unfolding e1 [symmetric] by simp_all
    have d2: "(p + L) div L = 2 * a + 1" "(p + L) mod L = k"
      using div_mod_block [OF True, of "2 * a + 1"] unfolding e2 [symmetric] by simp_all
    have pL: "p + L < 2 ^ m" using top True pk by linarith
    have "stage_value L V D p = D ! p + V ^ k * D ! (p + L)"
      using True by (simp add: stage_value_def k_def [symmetric])
    also have "\<dots> = E k + V ^ k * Od k"
      by (simp only: even [OF p d1(1)] odd [OF pL d2(1)] d1(2) d2(2))
    finally show ?thesis
      unfolding target L_def V_def D_def .
  next
    case False
    define k' where "k' = k - L"
    have kk: "k = k' + L" using False by (simp add: k'_def)
    have k': "k' < L" using k2 False by (simp add: k'_def)
    have e1: "p - L = (2 * a) * L + k'" using pk kk by (simp add: algebra_simps)
    have e2: "p = (2 * a + 1) * L + k'" using pk kk by (simp add: algebra_simps)
    have d1: "(p - L) div L = 2 * a" "(p - L) mod L = k'"
      using div_mod_block [OF k', of "2 * a"] unfolding e1 [symmetric] by simp_all
    have d2: "p div L = 2 * a + 1" "p mod L = k'"
      using div_mod_block [OF k', of "2 * a + 1"] unfolding e2 [symmetric] by simp_all
    have pL: "p - L < 2 ^ m" using p by simp
    have km: "k mod L = k'" using k' by (simp add: kk)
    have Vk: "V ^ k = - (V ^ k')"
    proof -
      have "V ^ k = V ^ k' * V ^ L" by (simp only: kk power_add)
      then show ?thesis unfolding V_def by (simp add: twiddle_half [OF L])
    qed
    have "stage_value L V D p = D ! (p - L) - V ^ k' * D ! p"
      using False by (simp add: stage_value_def k_def [symmetric] k'_def)
    also have "\<dots> = E k' - V ^ k' * Od k'"
      by (simp only: even [OF pL d1(1)] odd [OF p d2(1)] d1(2) d2(2))
    also have "\<dots> = E k + V ^ k * Od k"
      unfolding Eper [of k] Odper [of k] km Vk by simp
    finally show ?thesis
      unfolding target L_def V_def D_def .
  qed
qed

lemma fft_stages_dft:
  assumes "s \<le> m"
  shows "fft_stages (2 ^ Suc s) (2 ^ m) b (map (partial_dft b m s x) [0..<2 ^ m]) =
         map (partial_dft b m m x) [0..<2 ^ m]"
  using assms
proof (induction "m - s" arbitrary: s)
  case 0
  then have "s = m" by simp
  then show ?case by (simp add: fft_stages.simps [of "2 * 2 ^ m"])
next
  case (Suc d)
  then have s: "s < m" by simp
  let ?D = "map (partial_dft b m s x) [0..<2 ^ m]"
  have le: "(2::nat) ^ Suc s \<le> 2 ^ m" using s by (intro power_increasing) simp_all
  have len: "length ?D = 2 ^ (m - Suc s) * (2 * 2 ^ s)"
  proof -
    have "m = (m - Suc s) + Suc s" using s by simp
    then have "(2::nat) ^ m = 2 ^ ((m - Suc s) + Suc s)" by simp
    then show ?thesis by (simp add: power_add)
  qed
  have h: "0 < (2::nat) ^ s" by simp
  have "fft_stage (2 * 2 ^ s) (length ?D) b ?D =
        map (stage_value (2 ^ s) (twiddle b (2 * 2 ^ s)) ?D) [0..<length ?D]"
    by (rule fft_stage_eq [OF h len])
  also have "\<dots> = map (partial_dft b m (Suc s) x) [0..<2 ^ m]"
    by (intro map_cong) (simp_all add: stage_step [OF s])
  finally have st: "fft_stage (2 * 2 ^ s) (2 ^ m) b ?D = map (partial_dft b m (Suc s) x) [0..<2 ^ m]"
    by simp
  have "fft_stages (2 ^ Suc s) (2 ^ m) b ?D =
        fft_stages (2 * 2 ^ Suc s) (2 ^ m) b (fft_stage (2 ^ Suc s) (2 ^ m) b ?D)"
    using le by (subst fft_stages.simps) simp
  also have "\<dots> = fft_stages (2 ^ Suc (Suc s)) (2 ^ m) b (map (partial_dft b m (Suc s) x) [0..<2 ^ m])"
    by (simp add: st)
  also have "\<dots> = map (partial_dft b m m x) [0..<2 ^ m]"
    using Suc.hyps(2) s by (intro Suc.hyps(1)) simp_all
  finally show ?case .
qed

lemma bitReverse_partial:
  assumes "length x = 2 ^ m"
  shows "bitReverse x (2 ^ m) = map (partial_dft b m 0 x) [0..<2 ^ m]"
proof (rule nth_equalityI)
  show "length (bitReverse x (2 ^ m)) = length (map (partial_dft b m 0 x) [0..<2 ^ m])"
    by (simp add: bitReverse_nth(1) [OF assms])
next
  fix p
  assume "p < length (bitReverse x (2 ^ m))"
  then have p: "p < 2 ^ m" by (simp add: bitReverse_nth(1) [OF assms])
  then show "bitReverse x (2 ^ m) ! p = map (partial_dft b m 0 x) [0..<2 ^ m] ! p"
    by (simp add: bitReverse_nth(2) [OF assms] partial_dft_def)
qed

lemma partial_full:
  assumes "length x = 2 ^ m" and "p < 2 ^ m"
  shows "partial_dft b m m x p = dft b x p"
  using assms by (simp add: partial_dft_def dft_def)

lemma fft_stages_full:
  assumes "length x = 2 ^ m"
  shows "fft_stages 2 (2 ^ m) b (bitReverse x (2 ^ m)) = map (dft b x) [0..<2 ^ m]"
proof -
  have "fft_stages (2 ^ Suc 0) (2 ^ m) b (map (partial_dft b m 0 x) [0..<2 ^ m]) =
        map (partial_dft b m m x) [0..<2 ^ m]"
    by (rule fft_stages_dft) simp
  also have "\<dots> = map (dft b x) [0..<2 ^ m]"
    by (intro map_cong refl) (simp add: partial_full [OF assms])
  finally show ?thesis by (simp add: bitReverse_partial [OF assms, of b])
qed

lemma fft_forward:
  assumes "length x = 2 ^ m"
  shows "fft x (2 ^ m) False = map (dft False x) [0..<2 ^ m]"
  by (simp add: fft_def fft_stages_full [OF assms])

lemma fft_inverse:
  assumes "length x = 2 ^ m"
  shows "fft x (2 ^ m) True = map (\<lambda>k. dft True x k / of_nat (2 ^ m)) [0..<2 ^ m]"
  by (simp add: fft_def fft_stages_full [OF assms] comp_def)

lemma twiddle_cnj: "cnj (twiddle False n) = twiddle True n"
  by (simp add: twiddle_def cis_cnj)

lemma twiddle_inverse: "twiddle True n * twiddle False n = 1"
  by (simp add: twiddle_def cis_mult)

lemma twiddle_neq_one:
  assumes n: "0 < n" and j: "j < n" and l: "l < n" and ne: "j \<noteq> l"
  shows "twiddle True n ^ l * twiddle False n ^ j \<noteq> 1"
proof
  let ?t = "(real l - real j) * (2 * pi / real n)"
  assume "twiddle True n ^ l * twiddle False n ^ j = 1"
  moreover have "twiddle True n ^ l * twiddle False n ^ j = cis ?t"
    by (simp add: twiddle_def DeMoivre cis_mult algebra_simps diff_divide_distrib)
  ultimately have "cis ?t = 1" by simp
  then have "Re (cis ?t) = 1" by simp
  then have "cos ?t = 1" by simp
  then obtain i :: int where i: "?t = real_of_int i * 2 * pi"
    unfolding cos_one_2pi_int by blast
  have "(real l - real j) / real n = real_of_int i"
  proof -
    have "(real l - real j) / real n * (2 * pi) = real_of_int i * (2 * pi)"
      using i by (simp only: times_divide_eq_left times_divide_eq_right mult.assoc)
    then have "2 * pi = 0 \<or> (real l - real j) / real n = real_of_int i"
      by (simp only: mult_cancel_right)
    then show ?thesis by simp
  qed
  then have "real l - real j = real_of_int i * real n"
    using n by (simp add: divide_eq_eq)
  then have "real_of_int (int l - int j) = real_of_int (i * int n)" by simp
  then have e: "int l - int j = i * int n" by (simp only: of_int_eq_iff)
  have "i = 0"
  proof (rule ccontr)
    assume "i \<noteq> 0"
    then have "1 \<le> \<bar>i\<bar>" by simp
    then have "int n \<le> \<bar>i\<bar> * int n" by (simp add: mult_le_cancel_right1)
    also have "\<dots> = \<bar>int l - int j\<bar>" by (simp add: e abs_mult)
    also have "\<dots> < int n" using j l by simp
    finally show False by simp
  qed
  with e ne show False by simp
qed

lemma dft_orthogonal:
  assumes n: "0 < n" and j: "j < n" and l: "l < n"
  shows "(\<Sum>k<n. twiddle False n ^ (j * k) * twiddle True n ^ (k * l)) =
         (if j = l then of_nat n else 0)"
proof -
  define z where "z = twiddle True n ^ l * twiddle False n ^ j"
  have tm: "twiddle False n ^ (j * k) * twiddle True n ^ (k * l) = z ^ k" for k
  proof -
    have "twiddle False n ^ (j * k) = (twiddle False n ^ j) ^ k" by (simp only: power_mult)
    moreover have "twiddle True n ^ (k * l) = (twiddle True n ^ l) ^ k"
      by (simp only: power_mult [symmetric] mult.commute)
    ultimately show ?thesis
      unfolding z_def by (simp only: power_mult_distrib mult.commute)
  qed
  have zn: "z ^ n = 1"
  proof -
    have "z ^ n = (twiddle True n ^ n) ^ l * (twiddle False n ^ n) ^ j"
      unfolding z_def by (simp only: power_mult_distrib power_mult [symmetric] mult.commute)
    then show ?thesis by (simp add: twiddle_full [OF n])
  qed
  have s: "(\<Sum>k<n. twiddle False n ^ (j * k) * twiddle True n ^ (k * l)) = (\<Sum>k<n. z ^ k)"
    by (simp only: tm)
  show ?thesis
  proof (cases "j = l")
    case True
    have "z = (twiddle True n * twiddle False n) ^ j"
      unfolding z_def True by (simp only: power_mult_distrib)
    then have "z = 1" by (simp add: twiddle_inverse)
    then show ?thesis unfolding s using True by simp
  next
    case False
    have z1: "z \<noteq> 1" unfolding z_def by (rule twiddle_neq_one [OF n j l False])
    have "(\<Sum>k<n. z ^ k) = (z ^ n - 1) / (z - 1)" by (rule geometric_sum [OF z1])
    then show ?thesis unfolding s using False by (simp add: zn)
  qed
qed

lemma dft_inversion:
  assumes len: "length x = n" and l: "l < n"
  shows "dft True (map (dft False x) [0..<n]) l = of_nat n * x ! l"
proof -
  from l have n: "0 < n" by simp
  have "dft True (map (dft False x) [0..<n]) l =
        (\<Sum>k<n. (\<Sum>j<n. x ! j * twiddle False n ^ (j * k)) * twiddle True n ^ (k * l))"
    by (simp add: dft_def len)
  also have "\<dots> = (\<Sum>k<n. \<Sum>j<n. x ! j * (twiddle False n ^ (j * k) * twiddle True n ^ (k * l)))"
    by (simp only: sum_distrib_right mult.assoc)
  also have "\<dots> = (\<Sum>j<n. \<Sum>k<n. x ! j * (twiddle False n ^ (j * k) * twiddle True n ^ (k * l)))"
    by (rule sum.swap)
  also have "\<dots> = (\<Sum>j<n. x ! j * (if j = l then of_nat n else 0))"
    by (intro sum.cong refl) (simp add: sum_distrib_left [symmetric] dft_orthogonal [OF n _ l])
  also have "\<dots> = (\<Sum>j<n. if j = l then x ! j * of_nat n else 0)"
    by (intro sum.cong refl) simp
  also have "\<dots> = x ! l * of_nat n"
    using l by simp
  finally show ?thesis by (simp add: mult.commute)
qed

lemma dft_hermitian:
  assumes re: "\<And>j. j < length x \<Longrightarrow> Im (x ! j) = 0" and k: "k \<le> length x" and n: "0 < length x"
  shows "dft False x (length x - k) = cnj (dft False x k)"
proof -
  let ?n = "length x"
  let ?w = "twiddle False ?n"
  have inv: "cnj ?w = inverse ?w"
    by (simp add: twiddle_def cis_cnj)
  have w: "?w ^ (j * (?n - k)) = cnj (?w ^ (j * k))" for j
  proof -
    have "?w ^ (j * (?n - k)) * ?w ^ (j * k) = ?w ^ (j * (?n - k) + j * k)"
      by (simp only: power_add)
    also have "j * (?n - k) + j * k = ?n * j"
    proof -
      have "j * (?n - k) + j * k = j * ((?n - k) + k)" by (simp only: distrib_left)
      also have "(?n - k) + k = ?n" using k by simp
      finally show ?thesis by (simp only: mult.commute)
    qed
    also have "?w ^ (?n * j) = 1"
      by (simp only: power_mult twiddle_full [OF n] power_one)
    finally have "inverse (?w ^ (j * k)) = ?w ^ (j * (?n - k))"
      by (intro inverse_unique) (simp add: mult.commute)
    then show ?thesis by (simp add: inv power_inverse)
  qed
  have "cnj (dft False x k) = (\<Sum>j<?n. cnj (x ! j) * cnj (?w ^ (j * k)))"
    by (simp add: dft_def)
  also have "\<dots> = (\<Sum>j<?n. x ! j * ?w ^ (j * (?n - k)))"
  proof (rule sum.cong [OF refl])
    fix j
    assume "j \<in> {..<?n}"
    then have "Im (x ! j) = 0" by (intro re) simp
    then have "cnj (x ! j) = x ! j" by (simp add: complex_eq_iff)
    then show "cnj (x ! j) * cnj (?w ^ (j * k)) = x ! j * ?w ^ (j * (?n - k))"
      by (simp only: w)
  qed
  finally show ?thesis by (simp add: dft_def)
qed

lemma fold_assign:
  "c \<le> length b0 \<Longrightarrow>
     fold (\<lambda>i b. b[i := f i]) [0..<c] b0 =
     map (\<lambda>p. if p < c then f p else b0 ! p) [0..<length b0]"
proof (induction c)
  case 0
  then show ?case by (simp add: map_nth)
next
  case (Suc c)
  let ?b = "map (\<lambda>p. if p < c then f p else b0 ! p) [0..<length b0]"
  from Suc.prems have c: "c < length b0" by simp
  have "?b[c := f c] = map (\<lambda>p. if p < Suc c then f p else b0 ! p) [0..<length b0]"
    by (rule nth_equalityI) (auto simp add: nth_list_update less_Suc_eq)
  then show ?case using Suc.IH c by (simp del: upt_Suc add: upt_Suc_append)
qed

lemma fold_mirror:
  fixes b0 :: "complex list"
  assumes N: "length b0 = N"
  shows "2 * c \<le> N + 1 \<Longrightarrow>
     fold (\<lambda>i b. b[N - i := cnj (b ! i)]) [1..<c] b0 =
     map (\<lambda>p. if N - c < p \<and> p < N then cnj (b0 ! (N - p)) else b0 ! p) [0..<N]"
proof (induction c)
  case 0
  have "map (\<lambda>p. if N - 0 < p \<and> p < N then cnj (b0 ! (N - p)) else b0 ! p) [0..<N] =
        map (\<lambda>p. b0 ! p) [0..<N]"
    by (intro map_cong refl) auto
  then show ?case by (simp add: map_nth N [symmetric])
next
  case (Suc c)
  let ?g = "\<lambda>c p. if N - c < p \<and> p < N then cnj (b0 ! (N - p)) else b0 ! p"
  show ?case
  proof (cases "c = 0")
    case True
    have "map (?g (Suc 0)) [0..<N] = map (\<lambda>p. b0 ! p) [0..<N]"
      by (intro map_cong refl) auto
    then show ?thesis using True by (simp add: map_nth N [symmetric])
  next
    case False
    then have c1: "1 \<le> c" by simp
    from Suc.prems have c2: "2 * c + 1 \<le> N" by simp
    have IH: "fold (\<lambda>i b. b[N - i := cnj (b ! i)]) [1..<c] b0 = map (?g c) [0..<N]"
      using Suc.prems by (intro Suc.IH) simp
    have nc: "\<not> N - c < c" using c2 by linarith
    have rd: "map (?g c) [0..<N] ! c = b0 ! c" using c2 nc by simp
    have "(map (?g c) [0..<N])[N - c := cnj (b0 ! c)] = map (?g (Suc c)) [0..<N]"
    proof (rule nth_equalityI)
      show "length ((map (?g c) [0..<N])[N - c := cnj (b0 ! c)]) = length (map (?g (Suc c)) [0..<N])"
        by simp
    next
      fix p
      assume "p < length ((map (?g c) [0..<N])[N - c := cnj (b0 ! c)])"
      then have p: "p < N" by simp
      show "(map (?g c) [0..<N])[N - c := cnj (b0 ! c)] ! p = map (?g (Suc c)) [0..<N] ! p"
      proof (cases "p = N - c")
        case True
        have "N - (N - c) = c" using c2 by simp
        moreover have "N - Suc c < N - c" using c2 by linarith
        moreover have "N - c < N" using c1 c2 by linarith
        ultimately show ?thesis using True by simp
      next
        case False
        then have "(N - Suc c < p) = (N - c < p)" using c2 by linarith
        with False p show ?thesis by simp
      qed
    qed
    then have up: "(map (?g c) [0..<N])[N - c := cnj (map (?g c) [0..<N] ! c)] =
        map (?g (Suc c)) [0..<N]" by (simp only: rd)
    have "[1..<Suc c] = [1..<c] @ [c]" using c1 by (simp add: upt_Suc_append del: upt_Suc)
    then have "fold (\<lambda>i b. b[N - i := cnj (b ! i)]) [1..<Suc c] b0 =
        (fold (\<lambda>i b. b[N - i := cnj (b ! i)]) [1..<c] b0)
          [N - c := cnj (fold (\<lambda>i b. b[N - i := cnj (b ! i)]) [1..<c] b0 ! c)]"
      by (simp only: fold_append fold.simps comp_def id_def)
    also have "\<dots> = map (?g (Suc c)) [0..<N]" by (simp only: IH up)
    finally show ?thesis .
  qed
qed

lemma fft_size_power: "FFT_SIZE = 2 ^ 9"
  by (simp add: FFT_SIZE_def)

text \<open>One frame through the transform and back: the bins of a real frame, completed by
  Hermitian symmetry and transformed back, give the frame.\<close>

lemma spectrum_round_trip:
  fixes v :: "real list" and b0 :: "complex list"
  assumes v: "length v = FFT_SIZE" and b0: "length b0 = FFT_SIZE"
  defines "X \<equiv> fft (map (\<lambda>i. Complex (v ! i) 0) [0..<FFT_SIZE]) FFT_SIZE False"
  defines "realOut \<equiv> map (\<lambda>i. Re (X ! i)) [0..<NUM_BINS]"
    and "imagOut \<equiv> map (\<lambda>i. Im (X ! i)) [0..<NUM_BINS]"
  shows "fft (fold (\<lambda>i b. b[FFT_SIZE - i := cnj (b ! i)]) [1..<NUM_BINS - 1]
               (fold (\<lambda>i b. b[i := Complex (realOut ! i) (imagOut ! i)]) [0..<NUM_BINS] b0))
           FFT_SIZE True =
         map (\<lambda>i. Complex (v ! i) 0) [0..<FFT_SIZE]"
proof -
  define x where "x = map (\<lambda>i. Complex (v ! i) 0) [0..<FFT_SIZE]"
  have xlen: "length x = 2 ^ 9" by (simp add: x_def fft_size_power)
  have xlen': "length x = FFT_SIZE" by (simp add: x_def)
  have "X = fft x FFT_SIZE False" by (simp only: X_def x_def)
  then have X: "X = map (dft False x) [0..<FFT_SIZE]"
    unfolding fft_size_power by (simp only: fft_forward [OF xlen])
  have Xlen: "length X = FFT_SIZE" by (simp add: X)
  have bins: "NUM_BINS \<le> FFT_SIZE" by (simp add: NUM_BINS_def FFT_SIZE_def)
  define fa where "fa = fold (\<lambda>i b. b[i := Complex (realOut ! i) (imagOut ! i)]) [0..<NUM_BINS] b0"
  have fa: "fa = map (\<lambda>p. if p < NUM_BINS then X ! p else b0 ! p) [0..<FFT_SIZE]"
  proof -
    have "fa = map (\<lambda>p. if p < NUM_BINS then Complex (realOut ! p) (imagOut ! p) else b0 ! p)
                 [0..<length b0]"
      unfolding fa_def using bins b0 by (intro fold_assign) simp
    also have "\<dots> = map (\<lambda>p. if p < NUM_BINS then X ! p else b0 ! p) [0..<FFT_SIZE]"
      unfolding b0 by (intro map_cong refl) (simp add: realOut_def imagOut_def)
    finally show ?thesis .
  qed
  have falen: "length fa = FFT_SIZE" by (simp add: fa)
  define fb where "fb = fold (\<lambda>i b. b[FFT_SIZE - i := cnj (b ! i)]) [1..<NUM_BINS - 1] fa"
  have fb: "fb = X"
  proof -
    have "fb = map (\<lambda>p. if FFT_SIZE - (NUM_BINS - 1) < p \<and> p < FFT_SIZE
                       then cnj (fa ! (FFT_SIZE - p)) else fa ! p) [0..<FFT_SIZE]"
      unfolding fb_def by (rule fold_mirror [OF falen]) (simp add: NUM_BINS_def FFT_SIZE_def)
    also have "\<dots> = map (\<lambda>p. X ! p) [0..<FFT_SIZE]"
    proof (intro map_cong refl)
      fix p
      assume "p \<in> set [0..<FFT_SIZE]"
      then have p: "p < FFT_SIZE" by simp
      show "(if FFT_SIZE - (NUM_BINS - 1) < p \<and> p < FFT_SIZE
             then cnj (fa ! (FFT_SIZE - p)) else fa ! p) = X ! p"
      proof (cases "FFT_SIZE - (NUM_BINS - 1) < p")
        case True
        then have q: "FFT_SIZE - p < NUM_BINS" "FFT_SIZE - p < FFT_SIZE" "FFT_SIZE - p \<le> length x"
          using p by (simp_all add: NUM_BINS_def FFT_SIZE_def xlen)
        have "cnj (fa ! (FFT_SIZE - p)) = cnj (dft False x (FFT_SIZE - p))"
          using q by (simp add: fa X)
        also have "\<dots> = dft False x (length x - (FFT_SIZE - p))"
          by (rule dft_hermitian [symmetric]) (simp_all add: x_def q xlen' [unfolded x_def] FFT_SIZE_def)
        also have "length x - (FFT_SIZE - p) = p" using p by (simp add: xlen')
        finally have e: "cnj (fa ! (FFT_SIZE - p)) = dft False x p" .
        have Xp: "X ! p = dft False x p" using p by (simp add: X)
        from True p have cond: "FFT_SIZE - (NUM_BINS - 1) < p \<and> p < FFT_SIZE" by blast
        show ?thesis unfolding if_P [OF cond] e Xp ..
      next
        case False
        then have pb: "p < NUM_BINS" by (simp add: NUM_BINS_def FFT_SIZE_def)
        from False have cond: "\<not> (FFT_SIZE - (NUM_BINS - 1) < p \<and> p < FFT_SIZE)" by blast
        have "fa ! p = X ! p" using p pb by (simp add: fa)
        then show ?thesis unfolding if_not_P [OF cond] .
      qed
    qed
    finally show ?thesis by (simp add: map_nth Xlen [symmetric])
  qed
  have Xlen2: "length X = 2 ^ 9" by (simp add: Xlen fft_size_power)
  have "fft X FFT_SIZE True = map (\<lambda>k. dft True X k / of_nat (2 ^ 9)) [0..<2 ^ 9]"
    unfolding fft_size_power by (rule fft_inverse [OF Xlen2])
  also have "\<dots> = map (\<lambda>k. x ! k) [0..<2 ^ 9]"
  proof (intro map_cong refl)
    fix k
    assume "k \<in> set [0..<2 ^ 9]"
    then have k: "k < 2 ^ 9" by simp
    have "dft True X k = of_nat (2 ^ 9) * x ! k"
      unfolding X fft_size_power by (rule dft_inversion [OF xlen k])
    then show "dft True X k / of_nat (2 ^ 9) = x ! k" by simp
  qed
  also have "\<dots> = x" using map_nth [of x] by (simp only: xlen)
  finally show ?thesis unfolding fb [symmetric] fb_def fa_def x_def .
qed

lemma window_init:
  "window STFTProcessor_init = map (\<lambda>i. sqrt (hann i)) [0..<FFT_SIZE]"
  by (simp add: STFTProcessor_init_def STFTProcessor_reset_def initWindow_def hann_def Let_def)

lemma hann_nonneg: "0 \<le> hann i"
  by (simp add: hann_def)

lemma window_square:
  "i < FFT_SIZE \<Longrightarrow> window STFTProcessor_init ! i * window STFTProcessor_init ! i = hann i"
  by (simp add: window_init hann_nonneg)

lemma hann_overlap: "hann i + hann (i + HOP_SIZE) = 1"
proof -
  have "2 * pi * real (i + HOP_SIZE) / real FFT_SIZE = 2 * pi * real i / real FFT_SIZE + pi"
    by (simp add: HOP_SIZE_def FFT_SIZE_def field_simps)
  then have "cos (2 * pi * real (i + HOP_SIZE) / real FFT_SIZE) =
             - cos (2 * pi * real i / real FFT_SIZE)"
    by (simp only: cos_periodic_pi)
  then show ?thesis by (simp add: hann_def field_simps)
qed

lemma init_ready: "stft_ready STFTProcessor_init"
  by (simp add: stft_ready_def)
     (simp add: STFTProcessor_init_def STFTProcessor_reset_def FFT_SIZE_def HOP_SIZE_def)

lemma reset_ready: "stft_ready st \<Longrightarrow> stft_ready (STFTProcessor_reset st)"
  by (simp add: stft_ready_def STFTProcessor_reset_def FFT_SIZE_def HOP_SIZE_def)

text \<open>One chunk through \<^const>\<open>computeSTFT\<close> and \<^const>\<open>reconstructAudio\<close>.\<close>

lemma frame_round_trip:
  assumes w: "window st = window STFTProcessor_init"
    and sb: "length (stftBuffer st) = FFT_SIZE"
    and ob: "length (overlapBuffer st) = FFT_SIZE"
    and ch: "length chunk = HOP_SIZE"
  defines "buf \<equiv> drop HOP_SIZE (stftBuffer st) @ chunk"
  defines "st1 \<equiv> snd (computeSTFT st chunk)"
  defines "bins \<equiv> fst (computeSTFT st chunk)"
  defines "res \<equiv> reconstructAudio st1 (fst bins) (snd bins)"
  shows "stftBuffer (snd res) = buf"
    and "window (snd res) = window STFTProcessor_init"
    and "fst res = map (\<lambda>i. overlapBuffer st ! i + buf ! i * hann i) [0..<HOP_SIZE]"
    and "overlapBuffer (snd res) =
           map (\<lambda>i. overlapBuffer st ! (i + HOP_SIZE) + buf ! (i + HOP_SIZE) * hann (i + HOP_SIZE))
             [0..<HOP_SIZE] @ replicate HOP_SIZE 0"
proof -
  define v where "v = map (\<lambda>i. buf ! i * window st ! i) [0..<FFT_SIZE]"
  define x where "x = map (\<lambda>i. Complex (v ! i) 0) [0..<FFT_SIZE]"
  define X where "X = fft x FFT_SIZE False"
  have half: "FFT_SIZE - HOP_SIZE = HOP_SIZE" "HOP_SIZE \<le> FFT_SIZE" "HOP_SIZE + HOP_SIZE = FFT_SIZE"
    by (simp_all add: FFT_SIZE_def HOP_SIZE_def)
  have buf: "take (FFT_SIZE - HOP_SIZE) (drop HOP_SIZE (stftBuffer st)) @ take HOP_SIZE chunk = buf"
    by (simp add: buf_def half sb ch)
  have vx: "map (\<lambda>i. Complex (buf ! i * window st ! i) 0) [0..<FFT_SIZE] = x"
    unfolding x_def v_def by (intro map_cong refl) simp
  have vlen: "length v = FFT_SIZE" by (simp add: v_def)
  have xlen: "length x = 2 ^ 9" by (simp add: x_def fft_size_power)
  have Xlen: "length X = FFT_SIZE"
    unfolding X_def fft_size_power fft_forward [OF xlen] by simp
  have c: "computeSTFT st chunk =
      ((map (\<lambda>i. Re (X ! i)) [0..<NUM_BINS], map (\<lambda>i. Im (X ! i)) [0..<NUM_BINS]),
       st\<lparr>stftBuffer := buf, fftBuffer := X\<rparr>)"
    unfolding computeSTFT_def Let_def buf vx X_def ..
  have st1: "st1 = st\<lparr>stftBuffer := buf, fftBuffer := X\<rparr>"
    and b1: "fst bins = map (\<lambda>i. Re (X ! i)) [0..<NUM_BINS]"
    and b2: "snd bins = map (\<lambda>i. Im (X ! i)) [0..<NUM_BINS]"
    by (simp_all add: st1_def bins_def c)
  have sel: "fftBuffer st1 = X" "overlapBuffer st1 = overlapBuffer st" "window st1 = window st"
    by (simp_all add: st1)
  have inv_fft: "fft (fold (\<lambda>i b. b[FFT_SIZE - i := cnj (b ! i)]) [1..<NUM_BINS - 1]
               (fold (\<lambda>i b. b[i := Complex (fst bins ! i) (snd bins ! i)]) [0..<NUM_BINS] X))
           FFT_SIZE True = x"
    unfolding b1 b2 X_def x_def by (rule spectrum_round_trip [OF vlen Xlen [unfolded X_def x_def]])
  define ov where "ov = map (\<lambda>i. overlapBuffer st ! i + Re (x ! i) * window st ! i) [0..<FFT_SIZE]"
  have r: "res = (take HOP_SIZE ov,
      st1\<lparr>fftBuffer := x,
          overlapBuffer := take (FFT_SIZE - HOP_SIZE) (drop HOP_SIZE ov) @ replicate HOP_SIZE 0\<rparr>)"
    unfolding res_def reconstructAudio_def Let_def ov_def sel inv_fft ..
  have ovn: "ov ! i = overlapBuffer st ! i + buf ! i * hann i" if "i < FFT_SIZE" for i
  proof -
    have "Re (x ! i) = buf ! i * window st ! i" using that by (simp add: x_def v_def)
    then have "ov ! i = overlapBuffer st ! i + buf ! i * (window st ! i * window st ! i)"
      using that by (simp add: ov_def)
    then show ?thesis by (simp only: w window_square [OF that])
  qed
  show "stftBuffer (snd res) = buf" by (simp add: r st1)
  show "window (snd res) = window STFTProcessor_init" by (simp add: r st1 w)
  show "fst res = map (\<lambda>i. overlapBuffer st ! i + buf ! i * hann i) [0..<HOP_SIZE]"
  proof (rule nth_equalityI)
    show "length (fst res) = length (map (\<lambda>i. overlapBuffer st ! i + buf ! i * hann i) [0..<HOP_SIZE])"
      by (simp add: r ov_def half)
  next
    fix i
    assume "i < length (fst res)"
    then have i: "i < HOP_SIZE" by (simp add: r ov_def half)
    then have "i < FFT_SIZE" using half by linarith
    with i show "fst res ! i = map (\<lambda>i. overlapBuffer st ! i + buf ! i * hann i) [0..<HOP_SIZE] ! i"
      by (simp add: r ovn)
  qed
  show "overlapBuffer (snd res) =
           map (\<lambda>i. overlapBuffer st ! (i + HOP_SIZE) + buf ! (i + HOP_SIZE) * hann (i + HOP_SIZE))
             [0..<HOP_SIZE] @ replicate HOP_SIZE 0"
  proof -
    have "take (FFT_SIZE - HOP_SIZE) (drop HOP_SIZE ov) =
          map (\<lambda>i. overlapBuffer st ! (i + HOP_SIZE) + buf ! (i + HOP_SIZE) * hann (i + HOP_SIZE))
             [0..<HOP_SIZE]"
    proof (rule nth_equalityI)
      show "length (take (FFT_SIZE - HOP_SIZE) (drop HOP_SIZE ov)) =
            length (map (\<lambda>i. overlapBuffer st ! (i + HOP_SIZE) + buf ! (i + HOP_SIZE) * hann (i + HOP_SIZE))
             [0..<HOP_SIZE])"
        by (simp add: ov_def half)
    next
      fix i
      assume "i < length (take (FFT_SIZE - HOP_SIZE) (drop HOP_SIZE ov))"
      then have i: "i < HOP_SIZE" by (simp add: ov_def half)
      then have i2: "i + HOP_SIZE < FFT_SIZE" using half by linarith
      have "take (FFT_SIZE - HOP_SIZE) (drop HOP_SIZE ov) ! i = ov ! (HOP_SIZE + i)"
        using i i2 by (simp add: half ov_def)
      also have "\<dots> = ov ! (i + HOP_SIZE)" by (simp only: add.commute)
      also have "\<dots> = overlapBuffer st ! (i + HOP_SIZE) + buf ! (i + HOP_SIZE) * hann (i + HOP_SIZE)"
        by (rule ovn [OF i2])
      finally show "take (FFT_SIZE - HOP_SIZE) (drop HOP_SIZE ov) ! i =
          map (\<lambda>i. overlapBuffer st ! (i + HOP_SIZE) + buf ! (i + HOP_SIZE) * hann (i + HOP_SIZE))
             [0..<HOP_SIZE] ! i"
        using i by simp
    qed
    then show ?thesis by (simp add: r st1)
  qed
qed

lemma round_trip_Cons:
  "round_trip st (c # cs) =
     fst (reconstructAudio (snd (computeSTFT st c)) (fst (fst (computeSTFT st c)))
            (snd (fst (computeSTFT st c))))
     # round_trip
         (snd (reconstructAudio (snd (computeSTFT st c)) (fst (fst (computeSTFT st c)))
                 (snd (fst (computeSTFT st c))))) cs"
  by (simp add: split_beta Let_def)

lemma round_trip_length [simp]: "length (round_trip st cs) = length cs"
  by (induction cs arbitrary: st) (simp_all add: split_beta Let_def)

lemma sizes: "FFT_SIZE - HOP_SIZE = HOP_SIZE" "HOP_SIZE + HOP_SIZE = FFT_SIZE" "HOP_SIZE \<le> FFT_SIZE"
  by (simp_all add: FFT_SIZE_def HOP_SIZE_def)

lemma drop_length_append: "drop (length xs) (xs @ ys) = ys"
  by simp

lemma ready_step:
  assumes r: "stft_ready st" and c: "length c = HOP_SIZE"
  shows "stft_carry
     (snd (reconstructAudio (snd (computeSTFT st c)) (fst (fst (computeSTFT st c)))
             (snd (fst (computeSTFT st c))))) c"
proof -
  from r have w: "window st = window STFTProcessor_init"
    and sb: "length (stftBuffer st) = FFT_SIZE"
    and ob: "length (overlapBuffer st) = FFT_SIZE"
    and tail: "drop HOP_SIZE (overlapBuffer st) = replicate HOP_SIZE 0"
    by (simp_all add: stft_ready_def)
  note f = frame_round_trip [OF w sb ob c]
  let ?st2 = "snd (reconstructAudio (snd (computeSTFT st c)) (fst (fst (computeSTFT st c)))
             (snd (fst (computeSTFT st c))))"
  let ?buf = "drop HOP_SIZE (stftBuffer st) @ c"
  have dl: "length (drop HOP_SIZE (stftBuffer st)) = HOP_SIZE" by (simp add: sb sizes)
  have ov: "overlapBuffer ?st2 =
      map (\<lambda>i. c ! i * hann (i + HOP_SIZE)) [0..<HOP_SIZE] @ replicate HOP_SIZE 0"
  proof -
    have "map (\<lambda>i. overlapBuffer st ! (i + HOP_SIZE) + ?buf ! (i + HOP_SIZE) * hann (i + HOP_SIZE))
             [0..<HOP_SIZE] = map (\<lambda>i. c ! i * hann (i + HOP_SIZE)) [0..<HOP_SIZE]"
    proof (intro map_cong refl)
      fix i
      assume "i \<in> set [0..<HOP_SIZE]"
      then have i: "i < HOP_SIZE" by simp
      have "overlapBuffer st ! (HOP_SIZE + i) = drop HOP_SIZE (overlapBuffer st) ! i"
        using i by (simp add: ob sizes)
      also have "\<dots> = 0" using i by (simp add: tail)
      finally have z: "overlapBuffer st ! (i + HOP_SIZE) = 0" by (simp only: add.commute)
      have "?buf ! (length (drop HOP_SIZE (stftBuffer st)) + i) = c ! i"
        by (rule nth_append_length_plus)
      then have b: "?buf ! (i + HOP_SIZE) = c ! i" by (simp only: dl add.commute)
      show "overlapBuffer st ! (i + HOP_SIZE) + ?buf ! (i + HOP_SIZE) * hann (i + HOP_SIZE) =
            c ! i * hann (i + HOP_SIZE)"
        by (simp only: z b add_0)
    qed
    with f(4) show ?thesis by simp
  qed
  have bl: "length ?buf = FFT_SIZE" by (simp only: length_append dl c sizes)
  have "stft_ready ?st2"
    unfolding stft_ready_def f(1) by (simp add: f(2) ov sb c sizes)
  moreover have "drop HOP_SIZE (stftBuffer ?st2) = c"
  proof -
    have "drop (length (drop HOP_SIZE (stftBuffer st))) ?buf = c" by (rule drop_length_append)
    then show ?thesis by (simp only: f(1) dl)
  qed
  moreover have "take HOP_SIZE (overlapBuffer ?st2) =
      map (\<lambda>i. c ! i * hann (i + HOP_SIZE)) [0..<HOP_SIZE]" by (simp add: ov)
  ultimately show ?thesis by (simp add: stft_carry_def c)
qed

lemma carry_step:
  assumes k: "stft_carry st prev" and c: "length c = HOP_SIZE"
  shows "fst (reconstructAudio (snd (computeSTFT st c)) (fst (fst (computeSTFT st c)))
            (snd (fst (computeSTFT st c)))) = prev"
proof -
  from k have r: "stft_ready st" and ll: "length prev = HOP_SIZE"
    and dr: "drop HOP_SIZE (stftBuffer st) = prev"
    and tk: "take HOP_SIZE (overlapBuffer st) = map (\<lambda>i. prev ! i * hann (i + HOP_SIZE)) [0..<HOP_SIZE]"
    by (simp_all add: stft_carry_def)
  from r have w: "window st = window STFTProcessor_init"
    and sb: "length (stftBuffer st) = FFT_SIZE"
    and ob: "length (overlapBuffer st) = FFT_SIZE"
    by (simp_all add: stft_ready_def)
  note f = frame_round_trip(3) [OF w sb ob c, unfolded dr]
  have "map (\<lambda>i. overlapBuffer st ! i + (prev @ c) ! i * hann i) [0..<HOP_SIZE] =
        map (\<lambda>i. prev ! i) [0..<HOP_SIZE]"
  proof (intro map_cong refl)
    fix i
    assume "i \<in> set [0..<HOP_SIZE]"
    then have i: "i < HOP_SIZE" by simp
    have "overlapBuffer st ! i = take HOP_SIZE (overlapBuffer st) ! i" using i by simp
    also have "\<dots> = prev ! i * hann (i + HOP_SIZE)" using i by (simp add: tk)
    finally have o: "overlapBuffer st ! i = prev ! i * hann (i + HOP_SIZE)" .
    have b: "(prev @ c) ! i = prev ! i" using i by (simp add: nth_append ll)
    have "prev ! i * hann (i + HOP_SIZE) + prev ! i * hann i = prev ! i * (hann i + hann (i + HOP_SIZE))"
      by (simp add: algebra_simps)
    then show "overlapBuffer st ! i + (prev @ c) ! i * hann i = prev ! i"
      by (simp only: o b hann_overlap mult_1_right)
  qed
  also have "\<dots> = prev" using map_nth [of prev] by (simp only: ll)
  finally show ?thesis by (simp only: f)
qed

lemma carry_run:
  "stft_carry st prev \<Longrightarrow> \<forall>c\<in>set cs. length c = HOP_SIZE \<Longrightarrow>
     round_trip st cs = take (length cs) (prev # cs)"
proof (induction cs arbitrary: st prev)
  case Nil
  then show ?case by simp
next
  case (Cons c cs)
  from Cons.prems have c: "length c = HOP_SIZE" by simp
  from Cons.prems(1) have r: "stft_ready st" by (simp add: stft_carry_def)
  have "round_trip
          (snd (reconstructAudio (snd (computeSTFT st c)) (fst (fst (computeSTFT st c)))
                  (snd (fst (computeSTFT st c))))) cs = take (length cs) (c # cs)"
    using Cons.prems(2) by (intro Cons.IH ready_step [OF r c]) simp
  then show ?case
    unfolding round_trip_Cons carry_step [OF Cons.prems(1) c] by simp
qed

lemma zero_carry:
  assumes "stft_ready st" and "stftBuffer st = replicate FFT_SIZE 0"
    and "overlapBuffer st = replicate FFT_SIZE 0"
  shows "stft_carry st (replicate HOP_SIZE 0)"
proof -
  have "map (\<lambda>i. replicate HOP_SIZE 0 ! i * hann (i + HOP_SIZE)) [0..<HOP_SIZE] =
        map (\<lambda>i. 0) [0..<HOP_SIZE]"
    by (intro map_cong refl) simp
  also have "\<dots> = replicate HOP_SIZE 0" by (simp add: map_replicate_const)
  finally show ?thesis using assms
    by (simp add: stft_carry_def sizes min_def)
qed

text \<open>
  Claim C1. Start from any state in which a stream can start (in particular the freshly
  constructed or reset engine) and feed chunks of 256 samples, each through
  \<^const>\<open>computeSTFT\<close> and then, with the 257 real and imaginary bins unchanged, through
  \<^const>\<open>reconstructAudio\<close>. Then every reconstructed chunk but the first equals the input
  chunk before it: the input comes back delayed by one hop. From the constructed or reset
  engine the first reconstructed chunk is all zero. (Real arithmetic.)
\<close>

theorem stft_round_trip:
  assumes "stft_ready st" and "\<forall>c\<in>set chunks. length c = HOP_SIZE"
  shows "length (round_trip st chunks) = length chunks \<and>
         (\<forall>k. 0 < k \<and> k < length chunks \<longrightarrow> round_trip st chunks ! k = chunks ! (k - 1)) \<and>
         (stftBuffer st = replicate FFT_SIZE 0 \<and> overlapBuffer st = replicate FFT_SIZE 0 \<and>
          chunks \<noteq> [] \<longrightarrow> round_trip st chunks ! 0 = replicate HOP_SIZE 0)"
proof (intro conjI allI impI)
  show "length (round_trip st chunks) = length chunks" by simp
next
  fix k
  assume k: "0 < k \<and> k < length chunks"
  then obtain c cs where ch: "chunks = c # cs" by (cases chunks) auto
  from assms(2) ch have c: "length c = HOP_SIZE" and cs: "\<forall>c\<in>set cs. length c = HOP_SIZE"
    by simp_all
  let ?st2 = "snd (reconstructAudio (snd (computeSTFT st c)) (fst (fst (computeSTFT st c)))
                 (snd (fst (computeSTFT st c))))"
  have rest: "round_trip ?st2 cs = take (length cs) (c # cs)"
    by (rule carry_run [OF ready_step [OF assms(1) c] cs])
  from k ch obtain j where j: "k = Suc j" "j < length cs" by (cases k) auto
  have "round_trip st chunks ! k = round_trip ?st2 cs ! j"
    unfolding ch round_trip_Cons j(1) by simp
  also have "\<dots> = (c # cs) ! j" unfolding rest using j(2) by simp
  finally show "round_trip st chunks ! k = chunks ! (k - 1)" by (simp add: ch j(1))
next
  assume z: "stftBuffer st = replicate FFT_SIZE 0 \<and> overlapBuffer st = replicate FFT_SIZE 0 \<and>
          chunks \<noteq> []"
  then have "stft_carry st (replicate HOP_SIZE 0)" by (intro zero_carry assms(1)) simp_all
  from carry_run [OF this assms(2)] z show "round_trip st chunks ! 0 = replicate HOP_SIZE 0"
    by (cases chunks) simp_all
qed

theorem stft_round_trip_witness:
  "stft_ready STFTProcessor_init \<and>
   round_trip STFTProcessor_init [replicate 256 1, replicate 256 2, replicate 256 3] ! 0 =
     replicate 256 0 \<and>
   round_trip STFTProcessor_init [replicate 256 1, replicate 256 2, replicate 256 3] ! 1 =
     replicate 256 1 \<and>
   round_trip STFTProcessor_init [replicate 256 1, replicate 256 2, replicate 256 3] ! 2 =
     replicate 256 2"
proof -
  let ?chunks = "[replicate 256 1, replicate 256 2, replicate 256 3 :: real list]"
  have l: "\<forall>c\<in>set ?chunks. length c = HOP_SIZE" by (simp add: HOP_SIZE_def)
  have z: "stftBuffer STFTProcessor_init = replicate FFT_SIZE 0"
    "overlapBuffer STFTProcessor_init = replicate FFT_SIZE 0"
    by (simp_all add: STFTProcessor_init_def STFTProcessor_reset_def initWindow_def)
  note t = stft_round_trip [OF init_ready l]
  from t z have "round_trip STFTProcessor_init ?chunks ! 0 = replicate HOP_SIZE 0" by simp
  moreover from t have "round_trip STFTProcessor_init ?chunks ! 1 = ?chunks ! (1 - 1)" by simp
  moreover from t have "round_trip STFTProcessor_init ?chunks ! 2 = ?chunks ! (2 - 1)" by simp
  ultimately show ?thesis using init_ready by (simp add: HOP_SIZE_def)
qed


end
